theory Spec2Isabelle
  imports Main "HOL-Library.Word"
begin

section \<open>The knight keypad sequence counter (chess-challenge.cpp)\<close>

text \<open>
  A shallow embedding of \<^verbatim>\<open>chess-challenge.cpp\<close>. C++ \<^verbatim>\<open>int\<close> coordinates are
  \<^typ>\<open>int\<close>, the \<^verbatim>\<open>unsigned int\<close> sequence length and vowel limit and all container
  sizes are \<^typ>\<open>nat\<close>; the only place where a machine width is written out is the
  \<^verbatim>\<open>int\<close> accumulator of \<^verbatim>\<open>displayTotalSequences\<close>. A thrown exception is a value
  of type \<open>failure\<close>; \<open>undefined_behaviour\<close> stands for a \<^verbatim>\<open>vector::operator[]\<close>
  read outside the vector, which C++ leaves undefined. Arithmetic on coordinates and on the
  vowel count (an \<^verbatim>\<open>int\<close> in \<^verbatim>\<open>CountVowels\<close>) is exact: the model does not cover
  signed overflow.
\<close>

subsection \<open>Types\<close>

type_synonym CharVector2D = "char list list"
type_synonym Coordinates = "int \<times> int"
type_synonym ValidKeyMoves = "char \<rightharpoonup> Coordinates list"
type_synonym KeySequences = "(char \<times> string list) list"
type_synonym QueueEntry = "string \<times> Coordinates"

datatype failure = invalid_argument string | out_of_range | undefined_behaviour

text \<open>\<^verbatim>\<open>v[i]\<close> on a vector with an \<^verbatim>\<open>int\<close> index.\<close>

definition subscript :: "'a list \<Rightarrow> int \<Rightarrow> failure + 'a" where
  "subscript v i = (if 0 \<le> i \<and> i < int (length v) then Inr (v ! nat i) else Inl undefined_behaviour)"

text \<open>\<^verbatim>\<open>layout[x][y]\<close>.\<close>

definition subscript2 :: "CharVector2D \<Rightarrow> int \<Rightarrow> int \<Rightarrow> failure + char" where
  "subscript2 layout x y = (case subscript layout x of Inl e \<Rightarrow> Inl e | Inr row \<Rightarrow> subscript row y)"

subsection \<open>ChessPiece and Knight\<close>

record ChessPiece =
  GetMoves :: "Coordinates list"
  IsValidMove :: "int \<Rightarrow> int \<Rightarrow> int \<Rightarrow> int \<Rightarrow> char \<Rightarrow> CharVector2D \<Rightarrow> failure + bool"

definition Knight_GetMoves :: "Coordinates list" where
  "Knight_GetMoves = [(-2, -1), (-2, 1), (-1, -2), (-1, 2), (1, -2), (1, 2), (2, -1), (2, 1)]"

definition Knight_IsValidMove ::
  "int \<Rightarrow> int \<Rightarrow> int \<Rightarrow> int \<Rightarrow> char \<Rightarrow> CharVector2D \<Rightarrow> failure + bool" where
  "Knight_IsValidMove x y moveX moveY invalidKey layout =
     (let ROWS = int (length layout) in
      case subscript layout 0 of
        Inl e \<Rightarrow> Inl e
      | Inr row0 \<Rightarrow>
          let COLS = int (length row0);
              newX = x + moveX;
              newY = y + moveY
          in if newX \<ge> 0 \<and> newX < ROWS \<and> newY \<ge> 0 \<and> newY < COLS
             then (case subscript2 layout newX newY of
                     Inl e \<Rightarrow> Inl e
                   | Inr c \<Rightarrow>
                       Inr (c \<noteq> invalidKey \<and>
                            ((1 = \<bar>moveX\<bar> \<and> 2 = \<bar>moveY\<bar>) \<or> (2 = \<bar>moveX\<bar> \<and> 1 = \<bar>moveY\<bar>))))
             else Inr False)"

definition Knight :: ChessPiece where
  "Knight = \<lparr>GetMoves = Knight_GetMoves, IsValidMove = Knight_IsValidMove\<rparr>"

subsection \<open>KeyboardLayout\<close>

text \<open>The two private members are read only through their accessors, which name the fields.\<close>

record KeyboardLayout =
  GetInvalidKey :: char
  GetLayout :: CharVector2D

definition KeyboardLayout_ctor :: "char \<Rightarrow> CharVector2D \<Rightarrow> failure + KeyboardLayout" where
  "KeyboardLayout_ctor newInvalidKey newLayout =
     (case newLayout of
        [] \<Rightarrow> Inl (invalid_argument ''Layout dimensions must be non-zero.'')
      | row0 # _ \<Rightarrow>
          if row0 = [] then Inl (invalid_argument ''Layout dimensions must be non-zero.'')
          else Inr \<lparr>GetInvalidKey = newInvalidKey, GetLayout = newLayout\<rparr>)"

definition GetRows :: "KeyboardLayout \<Rightarrow> int" where
  "GetRows kl = (if GetLayout kl = [] then 0 else int (length (GetLayout kl)))"

definition GetCols :: "KeyboardLayout \<Rightarrow> int" where
  "GetCols kl = (case GetLayout kl of [] \<Rightarrow> 0 | row0 # _ \<Rightarrow> int (length row0))"

subsection \<open>Keyboard\<close>

record Keyboard =
  sequenceLength :: nat
  maxVowelCount :: nat
  keyboardLayout :: KeyboardLayout
  chessPiecePtr :: ChessPiece
  keyMoves :: ValidKeyMoves

definition IsVowel :: "char \<Rightarrow> bool" where
  "IsVowel key = (key \<in> set ''AEIOU'')"

fun CountVowels :: "string \<Rightarrow> nat" where
  "CountVowels [] = 0"
| "CountVowels (c # seq) = (if IsVowel c then 1 else 0) + CountVowels seq"

text \<open>The \<^verbatim>\<open>k\<close> loop of \<^verbatim>\<open>SetValidMovesForAllKeys\<close>: the moves of the piece that are valid from \<open>(i, j)\<close>.\<close>

fun collectMoves ::
  "ChessPiece \<Rightarrow> int \<Rightarrow> int \<Rightarrow> char \<Rightarrow> CharVector2D \<Rightarrow> Coordinates list \<Rightarrow> Coordinates list
    \<Rightarrow> failure + Coordinates list" where
  "collectMoves piece i j invalidKey layout moves [] = Inr moves"
| "collectMoves piece i j invalidKey layout moves (m # chessPieceMoves) =
     (case IsValidMove piece i j (fst m) (snd m) invalidKey layout of
        Inl e \<Rightarrow> Inl e
      | Inr valid \<Rightarrow>
          collectMoves piece i j invalidKey layout
            (if valid then moves @ [(fst m, snd m)] else moves) chessPieceMoves)"

text \<open>\<^verbatim>\<open>unordered_map::insert\<close> leaves the map alone when the key is already there.\<close>

definition map_insert :: "ValidKeyMoves \<Rightarrow> char \<Rightarrow> Coordinates list \<Rightarrow> ValidKeyMoves" where
  "map_insert m key moves = (case m key of None \<Rightarrow> m(key \<mapsto> moves) | Some _ \<Rightarrow> m)"

text \<open>The cells of the two nested \<^verbatim>\<open>for\<close> loops, in the order the loops visit them.\<close>

definition rowMajor :: "int \<Rightarrow> int \<Rightarrow> Coordinates list" where
  "rowMajor ROWS COLS = List.product [0..ROWS - 1] [0..COLS - 1]"

fun setMovesLoop ::
  "ChessPiece \<Rightarrow> char \<Rightarrow> CharVector2D \<Rightarrow> Coordinates list \<Rightarrow> ValidKeyMoves \<Rightarrow> failure + ValidKeyMoves" where
  "setMovesLoop piece invalidKey layout [] km = Inr km"
| "setMovesLoop piece invalidKey layout ((i, j) # cells) km =
     (case subscript2 layout i j of
        Inl e \<Rightarrow> Inl e
      | Inr key \<Rightarrow>
          if key \<noteq> invalidKey
          then (case collectMoves piece i j invalidKey layout [] (GetMoves piece) of
                  Inl e \<Rightarrow> Inl e
                | Inr moves \<Rightarrow> setMovesLoop piece invalidKey layout cells (map_insert km key moves))
          else setMovesLoop piece invalidKey layout cells km)"

definition SetValidMovesForAllKeys :: "Keyboard \<Rightarrow> failure + Keyboard" where
  "SetValidMovesForAllKeys K =
     (let ROWS = GetRows (keyboardLayout K);
          COLS = GetCols (keyboardLayout K);
          layout = GetLayout (keyboardLayout K);
          invalidKey = GetInvalidKey (keyboardLayout K)
      in case setMovesLoop (chessPiecePtr K) invalidKey layout (rowMajor ROWS COLS) (keyMoves K) of
           Inl e \<Rightarrow> Inl e
         | Inr km \<Rightarrow> Inr (K\<lparr>keyMoves := km\<rparr>))"

text \<open>\<^verbatim>\<open>unordered_map::at\<close> throws \<^verbatim>\<open>std::out_of_range\<close> for a key that is not in the map.\<close>

definition GetValidMovesForAKey :: "Keyboard \<Rightarrow> char \<Rightarrow> failure + Coordinates list" where
  "GetValidMovesForAKey K key = (case keyMoves K key of None \<Rightarrow> Inl out_of_range | Some moves \<Rightarrow> Inr moves)"

definition Keyboard_ctor :: "nat \<Rightarrow> nat \<Rightarrow> KeyboardLayout \<Rightarrow> ChessPiece \<Rightarrow> failure + Keyboard" where
  "Keyboard_ctor newSequenceLength newMaxVowelCount newKeyboardLayout newChessPiecePtr =
     (let K = \<lparr>sequenceLength = newSequenceLength, maxVowelCount = newMaxVowelCount,
                keyboardLayout = newKeyboardLayout, chessPiecePtr = newChessPiecePtr,
                keyMoves = Map.empty\<rparr>
      in if 0 = sequenceLength K then Inl (invalid_argument ''Sequence length must be non-zero.'')
         else SetValidMovesForAllKeys K)"

subsection \<open>GenerateSequences\<close>

text \<open>\<^verbatim>\<open>sequences[key].push_back(seq)\<close>: \<^verbatim>\<open>operator[]\<close> creates the entry when it is missing.\<close>

fun push_back_at :: "KeySequences \<Rightarrow> char \<Rightarrow> string \<Rightarrow> KeySequences" where
  "push_back_at [] key seq = [(key, [seq])]"
| "push_back_at ((k, v) # rest) key seq =
     (if k = key then (k, v @ [seq]) # rest else (k, v) # push_back_at rest key seq)"

text \<open>The \<^verbatim>\<open>for\<close> loop over the valid moves of the current key: one queue entry per move.\<close>

fun pushMoves ::
  "CharVector2D \<Rightarrow> string \<Rightarrow> int \<Rightarrow> int \<Rightarrow> Coordinates list \<Rightarrow> QueueEntry list \<Rightarrow> failure + QueueEntry list" where
  "pushMoves layout seq x y [] q = Inr q"
| "pushMoves layout seq x y (move # moves) q =
     (let newX = x + fst move; newY = y + snd move
      in case subscript2 layout newX newY of
           Inl e \<Rightarrow> Inl e
         | Inr c \<Rightarrow> pushMoves layout seq x y moves (q @ [(seq @ [c], (newX, newY))]))"

text \<open>
  One pass through the body of the \<^verbatim>\<open>while\<close> loop, for the entry at the front of the queue:
  the rest of the queue and the sequences found so far go in, and come out updated.
\<close>

definition loopBody ::
  "Keyboard \<Rightarrow> char \<Rightarrow> QueueEntry \<Rightarrow> QueueEntry list \<Rightarrow> KeySequences
    \<Rightarrow> failure + (QueueEntry list \<times> KeySequences)" where
  "loopBody K start front q sequences =
     (case front of (seq, (x, y)) \<Rightarrow>
        if CountVowels seq > maxVowelCount K then Inr (q, sequences)
        else if length seq = sequenceLength K then Inr (q, push_back_at sequences start seq)
        else (case subscript2 (GetLayout (keyboardLayout K)) x y of
                Inl e \<Rightarrow> Inl e
              | Inr key \<Rightarrow>
                  (case GetValidMovesForAKey K key of
                     Inl e \<Rightarrow> Inl e
                   | Inr moves \<Rightarrow>
                       (case pushMoves (GetLayout (keyboardLayout K)) seq x y moves q of
                          Inl e \<Rightarrow> Inl e
                        | Inr q' \<Rightarrow> Inr (q', sequences)))))"

text \<open>The \<^verbatim>\<open>while (!q.empty())\<close> loop. \<open>None\<close> is a loop that never ends.\<close>

partial_function (option) bfs ::
  "Keyboard \<Rightarrow> char \<Rightarrow> QueueEntry list \<Rightarrow> KeySequences \<Rightarrow> (failure + KeySequences) option" where
  "bfs K start q sequences =
     (case q of
        [] \<Rightarrow> Some (Inr sequences)
      | front # rest \<Rightarrow>
          (case loopBody K start front rest sequences of
             Inl e \<Rightarrow> Some (Inl e)
           | Inr (q', sequences') \<Rightarrow> bfs K start q' sequences'))"

text \<open>The two outer \<^verbatim>\<open>for\<close> loops: one search per key that is not the invalid key.\<close>

fun startsLoop :: "Keyboard \<Rightarrow> Coordinates list \<Rightarrow> KeySequences \<Rightarrow> (failure + KeySequences) option" where
  "startsLoop K [] sequences = Some (Inr sequences)"
| "startsLoop K ((i, j) # cells) sequences =
     (case subscript2 (GetLayout (keyboardLayout K)) i j of
        Inl e \<Rightarrow> Some (Inl e)
      | Inr key \<Rightarrow>
          if key \<noteq> GetInvalidKey (keyboardLayout K)
          then (case bfs K key [([key], (i, j))] sequences of
                  None \<Rightarrow> None
                | Some (Inl e) \<Rightarrow> Some (Inl e)
                | Some (Inr sequences') \<Rightarrow> startsLoop K cells sequences')
          else startsLoop K cells sequences)"

definition GenerateSequences :: "Keyboard \<Rightarrow> (failure + KeySequences) option" where
  "GenerateSequences K =
     startsLoop K (rowMajor (GetRows (keyboardLayout K)) (GetCols (keyboardLayout K))) []"

subsection \<open>displayTotalSequences and main\<close>

text \<open>The number of sequences held in the container that \<^verbatim>\<open>GenerateSequences\<close> returns.\<close>

definition numSequences :: "KeySequences \<Rightarrow> nat" where
  "numSequences sequences = sum_list (map (\<lambda>entry. length (snd entry)) sequences)"

text \<open>
  The summation loop of \<^verbatim>\<open>displayTotalSequences\<close>: \<^verbatim>\<open>totalSequenceCout\<close> is an \<^verbatim>\<open>int\<close>, so each
  \<^verbatim>\<open>+=\<close> of a size is taken modulo \<open>2 ^ 32\<close>.
\<close>

definition totalSequenceCout :: "KeySequences \<Rightarrow> 32 word" where
  "totalSequenceCout sequences = fold (\<lambda>entry total. total + of_nat (length (snd entry))) sequences 0"

definition digit :: "nat \<Rightarrow> char" where
  "digit d = ''0123456789'' ! d"

function show_nat :: "nat \<Rightarrow> string" where
  "show_nat n = (if n < 10 then [digit n] else show_nat (n div 10) @ [digit (n mod 10)])"
  by pat_completeness auto
termination
  by (relation "measure id") auto

definition show_int :: "int \<Rightarrow> string" where
  "show_int i = (if i < 0 then CHR ''-'' # show_nat (nat (- i)) else show_nat (nat i))"

text \<open>
  What \<^verbatim>\<open>displayTotalSequences\<close> writes to \<^verbatim>\<open>cout\<close>, or the exception it rethrows. The
  diagnostics on \<^verbatim>\<open>cerr\<close> are not part of the model.
\<close>

definition displayTotalSequences :: "Keyboard \<Rightarrow> (failure + string) option" where
  "displayTotalSequences K =
     (case GenerateSequences K of
        None \<Rightarrow> None
      | Some (Inl e) \<Rightarrow> Some (Inl e)
      | Some (Inr sequences) \<Rightarrow>
          Some (Inr (''Total number of sequences: '' @ show_int (sint (totalSequenceCout sequences))
                     @ [CHR 0x0A])))"

text \<open>The two exit statuses of \<^verbatim>\<open>cstdlib\<close>, with the values they have on Linux.\<close>

definition EXIT_SUCCESS :: int where "EXIT_SUCCESS = 0"
definition EXIT_FAILURE :: int where "EXIT_FAILURE = 1"

text \<open>
  The body of \<^verbatim>\<open>main\<close> with its four constants as parameters: the text on standard output
  and the exit status. The \<^verbatim>\<open>catch\<close> handles exceptions only; after undefined behaviour, or
  if the search never ended, there is no outcome (\<open>None\<close>).
\<close>

definition runMain :: "char \<Rightarrow> CharVector2D \<Rightarrow> nat \<Rightarrow> nat \<Rightarrow> (string \<times> int) option" where
  "runMain invalidKey layout len vowels =
     (case KeyboardLayout_ctor invalidKey layout of
        Inl e \<Rightarrow> Some ([], EXIT_FAILURE)
      | Inr kl \<Rightarrow>
          (case Keyboard_ctor len vowels kl Knight of
             Inl undefined_behaviour \<Rightarrow> None
           | Inl e \<Rightarrow> Some ([], EXIT_FAILURE)
           | Inr keyboard \<Rightarrow>
               (case displayTotalSequences keyboard of
                  None \<Rightarrow> None
                | Some (Inl undefined_behaviour) \<Rightarrow> None
                | Some (Inl e) \<Rightarrow> Some ([], EXIT_FAILURE)
                | Some (Inr out) \<Rightarrow> Some (out, EXIT_SUCCESS))))"

definition mainLayout :: CharVector2D where
  "mainLayout =
     [[CHR ''A'', CHR ''B'', CHR ''C'', CHR ''D'', CHR ''E''],
      [CHR ''F'', CHR ''G'', CHR ''H'', CHR ''I'', CHR ''J''],
      [CHR ''K'', CHR ''L'', CHR ''M'', CHR ''N'', CHR ''O''],
      [CHR 0x00, CHR ''1'', CHR ''2'', CHR ''3'', CHR 0x00]]"

definition main :: "(string \<times> int) option" where
  "main = runMain (CHR 0x00) mainLayout 10 2"

text \<open>
  The aggregate count of a configuration: construct the keyboard, generate, and count the
  sequences generated.
\<close>

definition aggregateCount :: "nat \<Rightarrow> nat \<Rightarrow> KeyboardLayout \<Rightarrow> ChessPiece \<Rightarrow> (failure + nat) option" where
  "aggregateCount len vowels kl piece =
     (case Keyboard_ctor len vowels kl piece of
        Inl e \<Rightarrow> Some (Inl e)
      | Inr K \<Rightarrow>
          (case GenerateSequences K of
             None \<Rightarrow> None
           | Some (Inl e) \<Rightarrow> Some (Inl e)
           | Some (Inr sequences) \<Rightarrow> Some (Inr (numSequences sequences))))"

text \<open>The loop unfolds by its defining equation when a concrete search is evaluated.\<close>

declare bfs.simps [code]

subsection \<open>Grids\<close>

text \<open>
  A grid in the sense of the specification: at least one row and one column, and all rows of
  the same length. \<open>inBounds\<close> is membership of \<open>[0, rows) \<times> [0, cols)\<close>, and \<open>labelAt\<close>
  the label of a cell that is in bounds.
\<close>

definition rectangular :: "CharVector2D \<Rightarrow> bool" where
  "rectangular layout =
     (layout \<noteq> [] \<and> hd layout \<noteq> [] \<and> (\<forall>row \<in> set layout. length row = length (hd layout)))"

definition inBounds :: "CharVector2D \<Rightarrow> int \<Rightarrow> int \<Rightarrow> bool" where
  "inBounds layout x y = (0 \<le> x \<and> x < int (length layout) \<and> 0 \<le> y \<and> y < int (length (hd layout)))"

definition labelAt :: "CharVector2D \<Rightarrow> int \<Rightarrow> int \<Rightarrow> char" where
  "labelAt layout x y = layout ! nat x ! nat y"

subsection \<open>The search tree of a queue entry\<close>

text \<open>
  The part of the loop body that expands an entry: the entries it appends to the queue, or
  the failure it stops at. The other definitions of this section follow the tree that
  expansion spans below an entry with \<open>d\<close> symbols still to go: its number of nodes, the number
  of sequences of full length in it, and whether expansion succeeds throughout.
\<close>

definition expand :: "Keyboard \<Rightarrow> QueueEntry \<Rightarrow> failure + QueueEntry list" where
  "expand K front =
     (case front of (seq, (x, y)) \<Rightarrow>
        (case subscript2 (GetLayout (keyboardLayout K)) x y of
           Inl e \<Rightarrow> Inl e
         | Inr key \<Rightarrow>
             (case GetValidMovesForAKey K key of
                Inl e \<Rightarrow> Inl e
              | Inr moves \<Rightarrow> pushMoves (GetLayout (keyboardLayout K)) seq x y moves [])))"

fun subtreeSize :: "Keyboard \<Rightarrow> nat \<Rightarrow> QueueEntry \<Rightarrow> nat" where
  "subtreeSize K 0 front = 1"
| "subtreeSize K (Suc d) front =
     Suc (if CountVowels (fst front) > maxVowelCount K then 0
          else case expand K front of
                 Inl e \<Rightarrow> 0
               | Inr entries \<Rightarrow> sum_list (map (subtreeSize K d) entries))"

fun subtreeCount :: "Keyboard \<Rightarrow> nat \<Rightarrow> QueueEntry \<Rightarrow> nat" where
  "subtreeCount K 0 front = (if CountVowels (fst front) > maxVowelCount K then 0 else 1)"
| "subtreeCount K (Suc d) front =
     (if CountVowels (fst front) > maxVowelCount K then 0
      else case expand K front of
             Inl e \<Rightarrow> 0
           | Inr entries \<Rightarrow> sum_list (map (subtreeCount K d) entries))"

fun subtreeOk :: "Keyboard \<Rightarrow> nat \<Rightarrow> QueueEntry \<Rightarrow> bool" where
  "subtreeOk K 0 front = True"
| "subtreeOk K (Suc d) front =
     (if CountVowels (fst front) > maxVowelCount K then True
      else case expand K front of
             Inl e \<Rightarrow> False
           | Inr entries \<Rightarrow> list_all (subtreeOk K d) entries)"

text \<open>
  The number of symbols an entry still lacks, and the sums of the three measures over a
  queue. \<open>withinLength\<close> holds of a queue in which no entry is longer than the sequence length.
\<close>

definition remaining :: "Keyboard \<Rightarrow> QueueEntry \<Rightarrow> nat" where
  "remaining K entry = sequenceLength K - length (fst entry)"

definition queueWork :: "Keyboard \<Rightarrow> QueueEntry list \<Rightarrow> nat" where
  "queueWork K q = sum_list (map (\<lambda>entry. subtreeSize K (remaining K entry) entry) q)"

definition queueCount :: "Keyboard \<Rightarrow> QueueEntry list \<Rightarrow> nat" where
  "queueCount K q = sum_list (map (\<lambda>entry. subtreeCount K (remaining K entry) entry) q)"

definition queueOk :: "Keyboard \<Rightarrow> QueueEntry list \<Rightarrow> bool" where
  "queueOk K q = list_all (\<lambda>entry. subtreeOk K (remaining K entry) entry) q"

definition withinLength :: "Keyboard \<Rightarrow> QueueEntry list \<Rightarrow> bool" where
  "withinLength K q = list_all (\<lambda>entry. length (fst entry) \<le> sequenceLength K) q"

text \<open>
  The same for the searches of all starting cells, which the two outer loops of
  \<^verbatim>\<open>GenerateSequences\<close> run one after the other.
\<close>

fun startsOk :: "Keyboard \<Rightarrow> Coordinates list \<Rightarrow> bool" where
  "startsOk K [] = True"
| "startsOk K ((i, j) # cells) =
     (case subscript2 (GetLayout (keyboardLayout K)) i j of
        Inl e \<Rightarrow> False
      | Inr key \<Rightarrow>
          if key \<noteq> GetInvalidKey (keyboardLayout K)
          then subtreeOk K (sequenceLength K - 1) ([key], (i, j)) \<and> startsOk K cells
          else startsOk K cells)"

fun startsCount :: "Keyboard \<Rightarrow> Coordinates list \<Rightarrow> nat" where
  "startsCount K [] = 0"
| "startsCount K ((i, j) # cells) =
     (case subscript2 (GetLayout (keyboardLayout K)) i j of
        Inl e \<Rightarrow> 0
      | Inr key \<Rightarrow>
          if key \<noteq> GetInvalidKey (keyboardLayout K)
          then subtreeCount K (sequenceLength K - 1) ([key], (i, j)) + startsCount K cells
          else startsCount K cells)"

definition generateOk :: "Keyboard \<Rightarrow> bool" where
  "generateOk K = startsOk K (rowMajor (GetRows (keyboardLayout K)) (GetCols (keyboardLayout K)))"

definition generateCount :: "Keyboard \<Rightarrow> nat" where
  "generateCount K = startsCount K (rowMajor (GetRows (keyboardLayout K)) (GetCols (keyboardLayout K)))"

subsection \<open>The enumeration without a vowel limit\<close>

text \<open>
  The enumeration with no vowel constraint at all: the number of sequences of full length
  in the tree below an entry, and below all starting cells, when no entry is ever discarded
  for its vowels.
\<close>

fun subtreeAll :: "Keyboard \<Rightarrow> nat \<Rightarrow> QueueEntry \<Rightarrow> nat" where
  "subtreeAll K 0 front = 1"
| "subtreeAll K (Suc d) front =
     (case expand K front of
        Inl e \<Rightarrow> 0
      | Inr entries \<Rightarrow> sum_list (map (subtreeAll K d) entries))"

fun startsAll :: "Keyboard \<Rightarrow> Coordinates list \<Rightarrow> nat" where
  "startsAll K [] = 0"
| "startsAll K ((i, j) # cells) =
     (case subscript2 (GetLayout (keyboardLayout K)) i j of
        Inl e \<Rightarrow> 0
      | Inr key \<Rightarrow>
          if key \<noteq> GetInvalidKey (keyboardLayout K)
          then subtreeAll K (sequenceLength K - 1) ([key], (i, j)) + startsAll K cells
          else startsAll K cells)"

definition unconstrainedCount :: "Keyboard \<Rightarrow> nat" where
  "unconstrainedCount K = startsAll K (rowMajor (GetRows (keyboardLayout K)) (GetCols (keyboardLayout K)))"

subsection \<open>Legal moves\<close>

text \<open>
  The legality test of the knight as a predicate on a cell and an offset, the list of the
  knight's offsets that pass it from a cell, and the first cell in row-major order that
  carries a label.
\<close>

definition legalMove :: "CharVector2D \<Rightarrow> char \<Rightarrow> int \<Rightarrow> int \<Rightarrow> Coordinates \<Rightarrow> bool" where
  "legalMove layout invalidKey x y m =
     (inBounds layout (x + fst m) (y + snd m)
      \<and> labelAt layout (x + fst m) (y + snd m) \<noteq> invalidKey
      \<and> ((1 = \<bar>fst m\<bar> \<and> 2 = \<bar>snd m\<bar>) \<or> (2 = \<bar>fst m\<bar> \<and> 1 = \<bar>snd m\<bar>)))"

definition legalMoves :: "CharVector2D \<Rightarrow> char \<Rightarrow> int \<Rightarrow> int \<Rightarrow> Coordinates list" where
  "legalMoves layout invalidKey x y = filter (legalMove layout invalidKey x y) Knight_GetMoves"

definition firstCell :: "KeyboardLayout \<Rightarrow> char \<Rightarrow> Coordinates option" where
  "firstCell kl key =
     find (\<lambda>(a, b). labelAt (GetLayout kl) a b = key) (rowMajor (GetRows kl) (GetCols kl))"

subsection \<open>Layouts with distinct labels\<close>

text \<open>
  A valid cell is a cell within the bounds whose label is not the invalid key. The labels are
  distinct when no two valid cells carry the same label.
\<close>

definition validCell :: "KeyboardLayout \<Rightarrow> Coordinates \<Rightarrow> bool" where
  "validCell kl p =
     (inBounds (GetLayout kl) (fst p) (snd p) \<and> labelAt (GetLayout kl) (fst p) (snd p) \<noteq> GetInvalidKey kl)"

definition distinctLabels :: "KeyboardLayout \<Rightarrow> bool" where
  "distinctLabels kl =
     distinct (filter (\<lambda>c. c \<noteq> GetInvalidKey kl)
                 (map (\<lambda>(i, j). labelAt (GetLayout kl) i j) (rowMajor (GetRows kl) (GetCols kl))))"

definition vowelValue :: "char \<Rightarrow> nat" where
  "vowelValue c = (if IsVowel c then 1 else 0)"

text \<open>The cell a move leads to.\<close>

definition target :: "Coordinates \<Rightarrow> Coordinates \<Rightarrow> Coordinates" where
  "target p m = (fst p + fst m, snd p + snd m)"

text \<open>
  The number of ways to continue from cell \<open>p\<close> by \<open>d\<close> legal moves, when the sequence up to
  and including \<open>p\<close> holds \<open>v\<close> vowels and no prefix may hold more than \<open>cap\<close>.
\<close>

fun walks :: "KeyboardLayout \<Rightarrow> nat \<Rightarrow> nat \<Rightarrow> nat \<Rightarrow> Coordinates \<Rightarrow> nat" where
  "walks kl cap 0 v p = (if v > cap then 0 else 1)"
| "walks kl cap (Suc d) v p =
     (if v > cap then 0
      else sum_list (map (\<lambda>m. walks kl cap d
                              (v + vowelValue (labelAt (GetLayout kl) (fst (target p m)) (snd (target p m))))
                              (target p m))
                      (legalMoves (GetLayout kl) (GetInvalidKey kl) (fst p) (snd p))))"

definition startCells :: "KeyboardLayout \<Rightarrow> Coordinates list" where
  "startCells kl = filter (validCell kl) (rowMajor (GetRows kl) (GetCols kl))"

definition totalWalks :: "KeyboardLayout \<Rightarrow> nat \<Rightarrow> nat \<Rightarrow> nat" where
  "totalWalks kl len cap =
     sum_list (map (\<lambda>p. walks kl cap (len - 1) (vowelValue (labelAt (GetLayout kl) (fst p) (snd p))) p)
                (startCells kl))"

text \<open>
  The table of a keyboard is exact when the layout is a grid and the table holds, for the
  label of every valid cell, the legal moves of that very cell.
\<close>

definition exactTable :: "Keyboard \<Rightarrow> bool" where
  "exactTable K =
     (rectangular (GetLayout (keyboardLayout K))
      \<and> (\<forall>p. validCell (keyboardLayout K) p \<longrightarrow>
             keyMoves K (labelAt (GetLayout (keyboardLayout K)) (fst p) (snd p))
               = Some (legalMoves (GetLayout (keyboardLayout K)) (GetInvalidKey (keyboardLayout K)) (fst p) (snd p))))"

text \<open>The entry that a move adds to the queue.\<close>

definition child :: "KeyboardLayout \<Rightarrow> QueueEntry \<Rightarrow> Coordinates \<Rightarrow> QueueEntry" where
  "child kl entry m =
     (fst entry @ [labelAt (GetLayout kl) (fst (target (snd entry) m)) (snd (target (snd entry) m))],
      target (snd entry) m)"

subsection \<open>The sequences to be counted\<close>

text \<open>
  The sequences that the specification counts. A path is a list of cells; each of its steps
  must use an offset that the move table lists under the label of the cell the step leaves.
  \<open>validSequences\<close> are the label sequences of the paths of the target length that start at a
  valid cell and in which no prefix holds more vowels than the limit.
\<close>

fun stepsInTable :: "Keyboard \<Rightarrow> Coordinates list \<Rightarrow> bool" where
  "stepsInTable K (p # q # path) =
     ((case keyMoves K (labelAt (GetLayout (keyboardLayout K)) (fst p) (snd p)) of
         None \<Rightarrow> False
       | Some moves \<Rightarrow> (fst q - fst p, snd q - snd p) \<in> set moves)
      \<and> stepsInTable K (q # path))"
| "stepsInTable K path = True"

definition labelsOf :: "KeyboardLayout \<Rightarrow> Coordinates list \<Rightarrow> string" where
  "labelsOf kl path = map (\<lambda>p. labelAt (GetLayout kl) (fst p) (snd p)) path"

definition validSequences :: "Keyboard \<Rightarrow> string set" where
  "validSequences K =
     {labelsOf (keyboardLayout K) path | path.
        length path = sequenceLength K \<and> path \<noteq> [] \<and> validCell (keyboardLayout K) (hd path)
        \<and> stepsInTable K path
        \<and> (\<forall>n \<le> length path. CountVowels (take n (labelsOf (keyboardLayout K) path)) \<le> maxVowelCount K)}"

text \<open>
  The same paths by recursion, as a list, and the steps of a path tested against the legal
  moves of the layout itself.
\<close>

fun pathsFrom :: "KeyboardLayout \<Rightarrow> nat \<Rightarrow> nat \<Rightarrow> nat \<Rightarrow> Coordinates \<Rightarrow> Coordinates list list" where
  "pathsFrom kl cap 0 v p = (if v > cap then [] else [[p]])"
| "pathsFrom kl cap (Suc d) v p =
     (if v > cap then []
      else map ((#) p)
             (concat (map (\<lambda>m. pathsFrom kl cap d
                                  (v + vowelValue (labelAt (GetLayout kl) (fst (target p m)) (snd (target p m))))
                                  (target p m))
                        (legalMoves (GetLayout kl) (GetInvalidKey kl) (fst p) (snd p)))))"

fun legalSteps :: "KeyboardLayout \<Rightarrow> Coordinates list \<Rightarrow> bool" where
  "legalSteps kl (p # q # path) =
     ((fst q - fst p, snd q - snd p) \<in> set (legalMoves (GetLayout kl) (GetInvalidKey kl) (fst p) (snd p))
      \<and> legalSteps kl (q # path))"
| "legalSteps kl path = True"

definition allPaths :: "KeyboardLayout \<Rightarrow> nat \<Rightarrow> nat \<Rightarrow> Coordinates list list" where
  "allPaths kl len cap =
     concat (map (\<lambda>p. pathsFrom kl cap (len - 1) (vowelValue (labelAt (GetLayout kl) (fst p) (snd p))) p)
               (startCells kl))"

subsection \<open>The queues of the search\<close>

text \<open>
  The queues that the search can hold: the queue with which the search of a starting cell
  begins, and every queue that a pass of the loop body leaves behind.
\<close>

inductive reachableQueue :: "Keyboard \<Rightarrow> QueueEntry list \<Rightarrow> bool" for K :: Keyboard where
  initial:
    "(i, j) \<in> set (rowMajor (GetRows (keyboardLayout K)) (GetCols (keyboardLayout K))) \<Longrightarrow>
     subscript2 (GetLayout (keyboardLayout K)) i j = Inr key \<Longrightarrow>
     key \<noteq> GetInvalidKey (keyboardLayout K) \<Longrightarrow>
     reachableQueue K [([key], (i, j))]"
| step:
    "reachableQueue K (front # rest) \<Longrightarrow>
     loopBody K start front rest sequences = Inr (q', sequences') \<Longrightarrow>
     reachableQueue K q'"

subsection \<open>Concrete keypads\<close>

text \<open>The keypad of \<^verbatim>\<open>main\<close>.\<close>

definition mainKeyboardLayout :: KeyboardLayout where
  "mainKeyboardLayout = \<lparr>GetInvalidKey = CHR 0x00, GetLayout = mainLayout\<rparr>"

text \<open>
  A keypad of two rows and three columns with six distinct labels, and the keyboard that
  the constructor builds for it with a sequence length of 3 and a vowel limit of 1.
\<close>

definition smallLayout :: KeyboardLayout where
  "smallLayout = \<lparr>GetInvalidKey = CHR 0x00, GetLayout = [''ABC'', ''DEF'']\<rparr>"

definition smallKeyboard :: Keyboard where
  "smallKeyboard =
     \<lparr>sequenceLength = 3, maxVowelCount = 1, keyboardLayout = smallLayout, chessPiecePtr = Knight,
      keyMoves = [CHR ''A'' \<mapsto> [(1, 2)], CHR ''B'' \<mapsto> [], CHR ''C'' \<mapsto> [(1, -2)],
                  CHR ''D'' \<mapsto> [(-1, 2)], CHR ''E'' \<mapsto> [], CHR ''F'' \<mapsto> [(-1, -2)]]\<rparr>"

text \<open>A keypad on which two keys carry the same label.\<close>

definition dupLayout :: KeyboardLayout where
  "dupLayout = \<lparr>GetInvalidKey = CHR ''.'', GetLayout = [''XX.'', ''...'', ''.B.'']\<rparr>"

text \<open>The keyboard that the constructor builds for the layout with a repeated label.\<close>

definition dupKeyboard :: Keyboard where
  "dupKeyboard =
     \<lparr>sequenceLength = 3, maxVowelCount = 2, keyboardLayout = dupLayout, chessPiecePtr = Knight,
      keyMoves = [CHR ''X'' \<mapsto> [(2, 1)], CHR ''B'' \<mapsto> [(-2, -1)]]\<rparr>"

section \<open>Properties\<close>

subsection \<open>Reading the layout\<close>

lemma subscript2_inBounds:
  assumes "rectangular layout" "inBounds layout x y"
  shows "subscript2 layout x y = Inr (labelAt layout x y)"
proof -
  from assms(2) have x: "0 \<le> x" "nat x < length layout" and y: "0 \<le> y" "nat y < length (hd layout)"
    by (auto simp: inBounds_def)
  from x have "layout ! nat x \<in> set layout" by simp
  with assms(1) have len: "length (layout ! nat x) = length (hd layout)"
    unfolding rectangular_def by blast
  from x have "subscript layout x = Inr (layout ! nat x)"
    by (simp add: subscript_def)
  moreover from y len have "subscript (layout ! nat x) y = Inr (layout ! nat x ! nat y)"
    by (simp add: subscript_def)
  ultimately show ?thesis
    by (simp add: subscript2_def labelAt_def)
qed

lemma subscript_row0:
  "rectangular layout \<Longrightarrow> subscript layout 0 = Inr (hd layout)"
  by (cases layout) (simp_all add: rectangular_def subscript_def)

lemma knight_shape:
  "((1 = \<bar>dx::int\<bar> \<and> 2 = \<bar>dy::int\<bar>) \<or> (2 = \<bar>dx\<bar> \<and> 1 = \<bar>dy\<bar>)) \<longleftrightarrow> {\<bar>dx\<bar>, \<bar>dy\<bar>} = {1, 2}"
  unfolding doubleton_eq_iff by (intro iffI; elim disjE conjE; simp)

lemma Knight_IsValidMove_rectangular:
  assumes "rectangular layout"
  shows "Knight_IsValidMove x y dx dy invalidKey layout =
     Inr (inBounds layout (x + dx) (y + dy) \<and> labelAt layout (x + dx) (y + dy) \<noteq> invalidKey
          \<and> {\<bar>dx\<bar>, \<bar>dy\<bar>} = {1, 2})"
proof (cases "inBounds layout (x + dx) (y + dy)")
  case True
  then have b: "x + dx \<ge> 0 \<and> x + dx < int (length layout) \<and> y + dy \<ge> 0 \<and> y + dy < int (length (hd layout))"
    by (simp add: inBounds_def)
  show ?thesis
    unfolding Knight_IsValidMove_def Let_def
    by (simp only: subscript_row0[OF assms] subscript2_inBounds[OF assms True] b True sum.case
          if_True knight_shape simp_thms)
next
  case False
  then have b: "\<not> (x + dx \<ge> 0 \<and> x + dx < int (length layout) \<and> y + dy \<ge> 0 \<and> y + dy < int (length (hd layout)))"
    by (simp add: inBounds_def)
  show ?thesis
    unfolding Knight_IsValidMove_def Let_def
    by (simp only: subscript_row0[OF assms] b False sum.case if_False simp_thms)
qed

lemma rectangular_mainLayout: "rectangular mainLayout"
  by (simp add: rectangular_def mainLayout_def)

subsection \<open>Move legality\<close>

text \<open>
  Claim C6. On every grid, for every cell and offset, \<^verbatim>\<open>Knight::IsValidMove\<close> returns true
  exactly when the destination lies within \<open>[0, rows) \<times> [0, cols)\<close>, the label of the
  destination is not the invalid key, and the absolute values of the offset are 1 and 2 in
  some order.
\<close>

theorem IsValidMove_iff_legal:
  assumes "rectangular layout"
  shows "IsValidMove Knight x y dx dy invalidKey layout =
     Inr (inBounds layout (x + dx) (y + dy) \<and> labelAt layout (x + dx) (y + dy) \<noteq> invalidKey
          \<and> {\<bar>dx\<bar>, \<bar>dy\<bar>} = {1, 2})"
  using Knight_IsValidMove_rectangular[OF assms] by (simp add: Knight_def)

theorem IsValidMove_iff_legal_witness:
  "rectangular mainLayout \<and>
   IsValidMove Knight 0 0 1 2 (CHR 0x00) mainLayout =
     Inr (inBounds mainLayout (0 + 1) (0 + 2) \<and> labelAt mainLayout (0 + 1) (0 + 2) \<noteq> CHR 0x00
          \<and> {\<bar>1::int\<bar>, \<bar>2::int\<bar>} = {1, 2})"
  using IsValidMove_iff_legal[OF rectangular_mainLayout, of 0 0 1 2 "CHR 0x00"] rectangular_mainLayout
  by simp

subsection \<open>Construction-time validation\<close>

text \<open>
  Claim C3, as the code has it. The constructor of \<^verbatim>\<open>KeyboardLayout\<close> throws, and what it
  throws is \<^verbatim>\<open>invalid_argument\<close>, exactly when the table has no row or its first row is
  empty. It does not compare the lengths of the rows and does not look at any row after the
  first.
\<close>

theorem KeyboardLayout_ctor_fails_iff:
  "((\<exists>e. KeyboardLayout_ctor invalidKey layout = Inl e) \<longleftrightarrow> (layout = [] \<or> hd layout = []))
   \<and> (KeyboardLayout_ctor invalidKey layout = Inl (invalid_argument ''Layout dimensions must be non-zero.'')
        \<longleftrightarrow> (layout = [] \<or> hd layout = []))"
  by (cases layout) (simp_all add: KeyboardLayout_ctor_def)

text \<open>Rows of unequal length are accepted.\<close>

theorem KeyboardLayout_ctor_accepts_ragged:
  "KeyboardLayout_ctor (CHR 0x00) [''AB'', ''C''] =
     Inr \<lparr>GetInvalidKey = CHR 0x00, GetLayout = [''AB'', ''C'']\<rparr>"
  by (simp add: KeyboardLayout_ctor_def)

lemma Keyboard_ctor_zero:
  "Keyboard_ctor 0 vowels kl piece = Inl (invalid_argument ''Sequence length must be non-zero.'')"
  by (simp add: Keyboard_ctor_def)

text \<open>
  Claim C8. With a sequence length of 0 the constructor of \<^verbatim>\<open>Keyboard\<close> throws
  \<^verbatim>\<open>invalid_argument\<close> before it builds the move table, so no keyboard exists on which to
  enumerate; \<^verbatim>\<open>main\<close> then writes nothing to standard output and returns a non-zero status.
\<close>

theorem zero_length_rejected:
  "Keyboard_ctor 0 vowels kl piece = Inl (invalid_argument ''Sequence length must be non-zero.'')
   \<and> runMain invalidKey layout 0 vowels = Some ([], EXIT_FAILURE) \<and> EXIT_FAILURE \<noteq> 0"
proof -
  have "runMain invalidKey layout 0 vowels = Some ([], EXIT_FAILURE)"
    unfolding runMain_def
    by (cases "KeyboardLayout_ctor invalidKey layout") (simp_all add: Keyboard_ctor_zero)
  then show ?thesis by (simp add: Keyboard_ctor_zero EXIT_FAILURE_def)
qed

subsection \<open>The breadth-first loop\<close>

lemma pushMoves_append:
  "pushMoves layout seq x y moves q =
     (case pushMoves layout seq x y moves [] of Inl e \<Rightarrow> Inl e | Inr entries \<Rightarrow> Inr (q @ entries))"
proof (induction moves arbitrary: q)
  case Nil
  show ?case by simp
next
  case (Cons move moves)
  show ?case
  proof (cases "subscript2 layout (x + fst move) (y + snd move)")
    case (Inl e)
    then show ?thesis by (simp add: Let_def)
  next
    case (Inr c)
    have 1: "pushMoves layout seq x y (move # moves) q
              = pushMoves layout seq x y moves (q @ [(seq @ [c], (x + fst move, y + snd move))])"
      using Inr by (simp add: Let_def)
    have 2: "pushMoves layout seq x y (move # moves) []
              = pushMoves layout seq x y moves [(seq @ [c], (x + fst move, y + snd move))]"
      using Inr by (simp add: Let_def)
    show ?thesis
      unfolding 1 2
      by (subst Cons.IH, subst (2) Cons.IH) (simp split: sum.split)
  qed
qed

lemma pushMoves_lengths:
  "pushMoves layout seq x y moves q = Inr q' \<Longrightarrow> \<forall>entry \<in> set q. length (fst entry) = Suc (length seq)
    \<Longrightarrow> \<forall>entry \<in> set q'. length (fst entry) = Suc (length seq)"
proof (induction moves arbitrary: q)
  case Nil
  then show ?case by simp
next
  case (Cons move moves)
  show ?case
  proof (cases "subscript2 layout (x + fst move) (y + snd move)")
    case (Inl e)
    with Cons.prems show ?thesis by (simp add: Let_def)
  next
    case (Inr c)
    with Cons.prems have "pushMoves layout seq x y moves (q @ [(seq @ [c], (x + fst move, y + snd move))]) = Inr q'"
      by (simp add: Let_def)
    then show ?thesis
      by (rule Cons.IH) (use Cons.prems(2) in simp)
  qed
qed

lemma expand_lengths:
  assumes "expand K (seq, pos) = Inr entries"
  shows "\<forall>entry \<in> set entries. length (fst entry) = Suc (length seq)"
proof -
  obtain x y where pos: "pos = (x, y)" by (cases pos)
  from assms obtain moves where "pushMoves (GetLayout (keyboardLayout K)) seq x y moves [] = Inr entries"
    unfolding expand_def pos by (auto split: sum.splits)
  then show ?thesis by (rule pushMoves_lengths) simp
qed

lemma loopBody_cases:
  "loopBody K start (seq, pos) q sequences =
     (if CountVowels seq > maxVowelCount K then Inr (q, sequences)
      else if length seq = sequenceLength K then Inr (q, push_back_at sequences start seq)
      else case expand K (seq, pos) of Inl e \<Rightarrow> Inl e | Inr entries \<Rightarrow> Inr (q @ entries, sequences))"
proof -
  obtain x y where pos: "pos = (x, y)" by (cases pos)
  show ?thesis
    unfolding loopBody_def expand_def pos
    by (simp split: sum.split add: pushMoves_append[of _ _ _ _ _ q])
qed

lemma numSequences_push_back_at:
  "numSequences (push_back_at sequences key seq) = Suc (numSequences sequences)"
  by (induction sequences key seq rule: push_back_at.induct) (simp_all add: numSequences_def)

lemma subtreeSize_pos: "0 < subtreeSize K d entry"
  by (cases d) simp_all

lemma queue_Cons:
  "queueWork K (entry # q) = subtreeSize K (remaining K entry) entry + queueWork K q"
  "queueCount K (entry # q) = subtreeCount K (remaining K entry) entry + queueCount K q"
  "queueOk K (entry # q) = (subtreeOk K (remaining K entry) entry \<and> queueOk K q)"
  "withinLength K (entry # q) = (length (fst entry) \<le> sequenceLength K \<and> withinLength K q)"
  by (simp_all add: queueWork_def queueCount_def queueOk_def withinLength_def)

lemma queue_append:
  "queueWork K (q @ q') = queueWork K q + queueWork K q'"
  "queueCount K (q @ q') = queueCount K q + queueCount K q'"
  "queueOk K (q @ q') = (queueOk K q \<and> queueOk K q')"
  "withinLength K (q @ q') = (withinLength K q \<and> withinLength K q')"
  by (simp_all add: queueWork_def queueCount_def queueOk_def withinLength_def)

lemma queue_children:
  assumes "\<forall>entry \<in> set entries. length (fst entry) = Suc n" "Suc n \<le> sequenceLength K"
  shows "queueWork K entries = sum_list (map (subtreeSize K (sequenceLength K - Suc n)) entries)"
    and "queueCount K entries = sum_list (map (subtreeCount K (sequenceLength K - Suc n)) entries)"
    and "queueOk K entries = list_all (subtreeOk K (sequenceLength K - Suc n)) entries"
    and "withinLength K entries"
proof -
  have r: "\<And>entry. entry \<in> set entries \<Longrightarrow> remaining K entry = sequenceLength K - Suc n"
    using assms(1) by (simp add: remaining_def)
  show "queueWork K entries = sum_list (map (subtreeSize K (sequenceLength K - Suc n)) entries)"
    unfolding queueWork_def by (rule arg_cong[where f = sum_list], rule map_cong) (simp_all add: r)
  show "queueCount K entries = sum_list (map (subtreeCount K (sequenceLength K - Suc n)) entries)"
    unfolding queueCount_def by (rule arg_cong[where f = sum_list], rule map_cong) (simp_all add: r)
  show "queueOk K entries = list_all (subtreeOk K (sequenceLength K - Suc n)) entries"
    unfolding queueOk_def list_all_iff using r by simp
  show "withinLength K entries"
    unfolding withinLength_def list_all_iff using assms by simp
qed

lemma step_success:
  assumes len: "length seq \<le> sequenceLength K"
    and step: "loopBody K start (seq, pos) rest sequences = Inr (q', sequences')"
  shows "queueWork K q' < queueWork K ((seq, pos) # rest)"
    and "numSequences sequences' + queueCount K q' = numSequences sequences + queueCount K ((seq, pos) # rest)"
    and "queueOk K q' = queueOk K ((seq, pos) # rest)"
    and "withinLength K rest \<Longrightarrow> withinLength K q'"
proof -
  consider (pruned) "CountVowels seq > maxVowelCount K"
    | (complete) "\<not> CountVowels seq > maxVowelCount K" "length seq = sequenceLength K"
    | (grow) "\<not> CountVowels seq > maxVowelCount K" "length seq < sequenceLength K"
    using len by linarith
  then have "queueWork K q' < queueWork K ((seq, pos) # rest)
     \<and> numSequences sequences' + queueCount K q' = numSequences sequences + queueCount K ((seq, pos) # rest)
     \<and> queueOk K q' = queueOk K ((seq, pos) # rest)
     \<and> (withinLength K rest \<longrightarrow> withinLength K q')"
  proof cases
    case pruned
    with step have eq: "q' = rest" "sequences' = sequences" by (simp_all add: loopBody_cases)
    have c: "subtreeCount K (remaining K (seq, pos)) (seq, pos) = 0"
      using pruned by (cases "remaining K (seq, pos)") simp_all
    have o: "subtreeOk K (remaining K (seq, pos)) (seq, pos)"
      using pruned by (cases "remaining K (seq, pos)") simp_all
    show ?thesis
      unfolding eq queue_Cons using c o subtreeSize_pos[of K "remaining K (seq, pos)" "(seq, pos)"] by simp
  next
    case complete
    with step have eq: "q' = rest" "sequences' = push_back_at sequences start seq"
      by (simp_all add: loopBody_cases)
    from complete have r: "remaining K (seq, pos) = 0" by (simp add: remaining_def)
    show ?thesis
      unfolding eq queue_Cons r using complete(1) by (simp add: numSequences_push_back_at)
  next
    case grow
    from grow step obtain entries where ex: "expand K (seq, pos) = Inr entries"
      and eq: "q' = rest @ entries" "sequences' = sequences"
      by (auto simp: loopBody_cases split: sum.splits)
    from grow have r: "remaining K (seq, pos) = Suc (sequenceLength K - Suc (length seq))"
      by (simp add: remaining_def)
    note ch = queue_children[OF expand_lengths[OF ex], of K]
    from grow have sl: "Suc (length seq) \<le> sequenceLength K" by simp
    show ?thesis
      unfolding eq queue_Cons queue_append r ch(1)[OF sl] ch(2)[OF sl] ch(3)[OF sl]
      using grow(1) ex ch(4)[OF sl] by (auto simp: conj_commute)
  qed
  then show "queueWork K q' < queueWork K ((seq, pos) # rest)"
    and "numSequences sequences' + queueCount K q' = numSequences sequences + queueCount K ((seq, pos) # rest)"
    and "queueOk K q' = queueOk K ((seq, pos) # rest)"
    and "withinLength K rest \<Longrightarrow> withinLength K q'"
    by simp_all
qed

lemma step_failure:
  assumes len: "length seq \<le> sequenceLength K"
    and step: "loopBody K start (seq, pos) rest sequences = Inl e"
  shows "\<not> subtreeOk K (remaining K (seq, pos)) (seq, pos)"
proof -
  from step have np: "\<not> CountVowels seq > maxVowelCount K" and nl: "length seq \<noteq> sequenceLength K"
    and ex: "expand K (seq, pos) = Inl e"
    by (auto simp: loopBody_cases split: if_splits sum.splits)
  from len nl have r: "remaining K (seq, pos) = Suc (sequenceLength K - Suc (length seq))"
    by (simp add: remaining_def)
  show ?thesis unfolding r using np ex by simp
qed

lemma bfs_Nil: "bfs K start [] sequences = Some (Inr sequences)"
  by (subst bfs.simps) simp

lemma bfs_Cons:
  "bfs K start (front # rest) sequences =
     (case loopBody K start front rest sequences of
        Inl e \<Rightarrow> Some (Inl e)
      | Inr (q', sequences') \<Rightarrow> bfs K start q' sequences')"
  by (subst bfs.simps) simp

lemma bfs_result:
  assumes "withinLength K q"
  shows "if queueOk K q
         then \<exists>sequences'. bfs K start q sequences = Some (Inr sequences')
                \<and> numSequences sequences' = numSequences sequences + queueCount K q
         else \<exists>e. bfs K start q sequences = Some (Inl e)"
  using assms
proof (induction "queueWork K q" arbitrary: q sequences rule: less_induct)
  case less
  show ?case
  proof (cases q)
    case Nil
    then show ?thesis by (simp add: bfs_Nil queueOk_def queueCount_def)
  next
    case (Cons front rest)
    obtain seq pos where front: "front = (seq, pos)" by (cases front)
    from less.prems have len: "length seq \<le> sequenceLength K" and wrest: "withinLength K rest"
      by (simp_all add: Cons front queue_Cons)
    show ?thesis
    proof (cases "loopBody K start (seq, pos) rest sequences")
      case (Inl e)
      from step_failure[OF len Inl] have "\<not> queueOk K q"
        by (simp add: Cons front queue_Cons)
      moreover have "bfs K start q sequences = Some (Inl e)"
        by (simp add: Cons front bfs_Cons Inl)
      ultimately show ?thesis by simp
    next
      case (Inr next_state)
      obtain q' sequences' where ns: "next_state = (q', sequences')" by (cases next_state)
      note st = step_success[OF len Inr[unfolded ns]]
      have b: "bfs K start q sequences = bfs K start q' sequences'"
        by (simp add: Cons front bfs_Cons Inr ns)
      have IH: "if queueOk K q'
         then \<exists>s. bfs K start q' sequences' = Some (Inr s)
                \<and> numSequences s = numSequences sequences' + queueCount K q'
         else \<exists>e. bfs K start q' sequences' = Some (Inl e)"
        by (rule less.hyps) (use st(1) st(4)[OF wrest] in \<open>simp_all add: Cons front\<close>)
      show ?thesis
        unfolding b using IH st(2) st(3) by (auto simp: Cons front)
    qed
  qed
qed

lemma startsLoop_result:
  assumes "1 \<le> sequenceLength K"
  shows "if startsOk K cells
         then \<exists>sequences'. startsLoop K cells sequences = Some (Inr sequences')
                \<and> numSequences sequences' = numSequences sequences + startsCount K cells
         else \<exists>e. startsLoop K cells sequences = Some (Inl e)"
proof (induction cells arbitrary: sequences)
  case Nil
  show ?case by simp
next
  case (Cons cell cells)
  obtain i j where cell: "cell = (i, j)" by (cases cell)
  show ?case
  proof (cases "subscript2 (GetLayout (keyboardLayout K)) i j")
    case (Inl e)
    then show ?thesis by (simp add: cell)
  next
    case (Inr key)
    show ?thesis
    proof (cases "key \<noteq> GetInvalidKey (keyboardLayout K)")
      case False
      with Inr Cons.IH[of sequences] show ?thesis by (simp add: cell)
    next
      case True
      have w: "withinLength K [([key], (i, j))]"
        using assms by (simp add: withinLength_def)
      have r: "remaining K ([key], (i, j)) = sequenceLength K - 1"
        by (simp add: remaining_def)
      note res = bfs_result[OF w, of key sequences]
      show ?thesis
      proof (cases "subtreeOk K (sequenceLength K - 1) ([key], (i, j))")
        case ok: True
        then have "queueOk K [([key], (i, j))]" by (simp add: queueOk_def r)
        with res obtain s where s: "bfs K key [([key], (i, j))] sequences = Some (Inr s)"
          and n: "numSequences s = numSequences sequences + queueCount K [([key], (i, j))]"
          by auto
        have c: "queueCount K [([key], (i, j))] = subtreeCount K (sequenceLength K - 1) ([key], (i, j))"
          by (simp add: queueCount_def r)
        from Inr True ok s n c Cons.IH[of s] show ?thesis
          by (auto simp: cell)
      next
        case bad: False
        then have "\<not> queueOk K [([key], (i, j))]" by (simp add: queueOk_def r)
        with res obtain e where "bfs K key [([key], (i, j))] sequences = Some (Inl e)"
          by auto
        with Inr True bad show ?thesis by (simp add: cell)
      qed
    qed
  qed
qed

lemma GenerateSequences_result:
  assumes "1 \<le> sequenceLength K"
  shows "if generateOk K
         then \<exists>sequences. GenerateSequences K = Some (Inr sequences)
                \<and> numSequences sequences = generateCount K
         else \<exists>e. GenerateSequences K = Some (Inl e)"
proof -
  have z: "numSequences [] = 0" by (simp add: numSequences_def)
  show ?thesis
    using startsLoop_result[OF assms,
        of "rowMajor (GetRows (keyboardLayout K)) (GetCols (keyboardLayout K))" "[]"]
    unfolding GenerateSequences_def generateOk_def generateCount_def z by (simp split: if_splits)
qed

subsection \<open>Vowel limits and termination\<close>

lemma Keyboard_ctor_Inr_iff:
  "Keyboard_ctor len vowels kl piece = Inr K \<longleftrightarrow>
     1 \<le> len \<and>
     (\<exists>km. setMovesLoop piece (GetInvalidKey kl) (GetLayout kl) (rowMajor (GetRows kl) (GetCols kl)) Map.empty = Inr km
        \<and> K = \<lparr>sequenceLength = len, maxVowelCount = vowels, keyboardLayout = kl,
                chessPiecePtr = piece, keyMoves = km\<rparr>)"
  unfolding Keyboard_ctor_def SetValidMovesForAllKeys_def Let_def
  by (cases "setMovesLoop piece (GetInvalidKey kl) (GetLayout kl) (rowMajor (GetRows kl) (GetCols kl)) Map.empty")
     auto

lemma aggregateCount_Inr_iff:
  assumes "Keyboard_ctor len vowels kl piece = Inr K"
  shows "aggregateCount len vowels kl piece = Some (Inr c) \<longleftrightarrow> generateOk K \<and> c = generateCount K"
proof -
  from assms have "1 \<le> sequenceLength K" by (auto simp: Keyboard_ctor_Inr_iff)
  from GenerateSequences_result[OF this] show ?thesis
    unfolding aggregateCount_def assms by (auto split: if_splits)
qed

lemma aggregateCount_total:
  "\<exists>r. aggregateCount len vowels kl piece = Some r"
proof (cases "Keyboard_ctor len vowels kl piece")
  case (Inl e)
  then show ?thesis by (simp add: aggregateCount_def)
next
  case (Inr K)
  then have "1 \<le> sequenceLength K" by (auto simp: Keyboard_ctor_Inr_iff)
  from GenerateSequences_result[OF this] show ?thesis
    unfolding aggregateCount_def Inr by (auto split: if_splits)
qed

lemma expand_cong:
  assumes "keyboardLayout K1 = keyboardLayout K2" "keyMoves K1 = keyMoves K2"
  shows "expand K1 = expand K2"
proof -
  have g: "GetValidMovesForAKey K1 = GetValidMovesForAKey K2"
    using assms(2) by (simp add: GetValidMovesForAKey_def fun_eq_iff)
  show ?thesis
    unfolding expand_def assms(1) g by (rule refl)
qed

lemma CountVowels_le_length: "CountVowels seq \<le> length seq"
  by (induction seq) simp_all

lemma subtree_mono:
  assumes same: "keyboardLayout K1 = keyboardLayout K2" "keyMoves K1 = keyMoves K2"
    and le: "maxVowelCount K1 \<le> maxVowelCount K2"
  shows "subtreeCount K1 d entry \<le> subtreeCount K2 d entry"
    and "subtreeOk K2 d entry \<Longrightarrow> subtreeOk K1 d entry"
proof -
  note ex = expand_cong[OF same]
  show "subtreeCount K1 d entry \<le> subtreeCount K2 d entry"
  proof (induction d arbitrary: entry)
    case 0
    show ?case using le by simp
  next
    case (Suc d)
    show ?case
    proof (cases "expand K2 entry")
      case (Inl e)
      then show ?thesis by (simp add: ex)
    next
      case (Inr entries)
      have "sum_list (map (subtreeCount K1 d) entries) \<le> sum_list (map (subtreeCount K2 d) entries)"
        by (rule sum_list_mono) (rule Suc.IH)
      then show ?thesis using le by (simp add: ex Inr)
    qed
  qed
  show "subtreeOk K2 d entry \<Longrightarrow> subtreeOk K1 d entry"
  proof (induction d arbitrary: entry)
    case 0
    show ?case by simp
  next
    case (Suc d)
    show ?case
    proof (cases "CountVowels (fst entry) > maxVowelCount K1")
      case True
      then show ?thesis by simp
    next
      case False
      with le have n2: "\<not> CountVowels (fst entry) > maxVowelCount K2" by simp
      from Suc.prems n2 obtain entries where e: "expand K2 entry = Inr entries"
        and ok: "list_all (subtreeOk K2 d) entries"
        by (auto split: sum.splits)
      from ok have "list_all (subtreeOk K1 d) entries"
        unfolding list_all_iff using Suc.IH by blast
      then show ?thesis using False e by (simp add: ex)
    qed
  qed
qed

lemma subtree_uncapped:
  assumes "length (fst entry) + d \<le> maxVowelCount K"
  shows "subtreeCount K d entry = subtreeAll K d entry"
  using assms
proof (induction d arbitrary: entry)
  case 0
  have "CountVowels (fst entry) \<le> length (fst entry)" by (rule CountVowels_le_length)
  with 0 show ?case by simp
next
  case (Suc d)
  have cv: "CountVowels (fst entry) \<le> length (fst entry)" by (rule CountVowels_le_length)
  with Suc.prems have np: "\<not> CountVowels (fst entry) > maxVowelCount K" by simp
  show ?case
  proof (cases "expand K entry")
    case (Inl e)
    then show ?thesis using np by simp
  next
    case (Inr entries)
    obtain seq pos where entry: "entry = (seq, pos)" by (cases entry)
    from expand_lengths[OF Inr[unfolded entry]]
    have len: "\<And>child. child \<in> set entries \<Longrightarrow> length (fst child) = Suc (length seq)" by simp
    have "map (subtreeCount K d) entries = map (subtreeAll K d) entries"
    proof (rule map_cong[OF refl])
      fix child assume "child \<in> set entries"
      from len[OF this] Suc.prems have "length (fst child) + d \<le> maxVowelCount K"
        by (simp add: entry)
      then show "subtreeCount K d child = subtreeAll K d child" by (rule Suc.IH)
    qed
    then have "sum_list (map (subtreeCount K d) entries) = sum_list (map (subtreeAll K d) entries)"
      by (rule arg_cong)
    then show ?thesis using np Inr by simp
  qed
qed

lemma subtreeOk_uncapped:
  assumes same: "keyboardLayout K1 = keyboardLayout K2" "keyMoves K1 = keyMoves K2"
    and "length (fst entry) + d \<le> maxVowelCount K1" "length (fst entry) + d \<le> maxVowelCount K2"
  shows "subtreeOk K1 d entry = subtreeOk K2 d entry"
  using assms(3,4)
proof (induction d arbitrary: entry)
  case 0
  show ?case by simp
next
  case (Suc d)
  note ex = expand_cong[OF same]
  have cv: "CountVowels (fst entry) \<le> length (fst entry)" by (rule CountVowels_le_length)
  with Suc.prems have np: "\<not> CountVowels (fst entry) > maxVowelCount K1"
    "\<not> CountVowels (fst entry) > maxVowelCount K2" by simp_all
  show ?case
  proof (cases "expand K2 entry")
    case (Inl e)
    then show ?thesis using np by (simp add: ex)
  next
    case (Inr entries)
    obtain seq pos where entry: "entry = (seq, pos)" by (cases entry)
    from expand_lengths[OF Inr[unfolded entry]]
    have len: "\<And>child. child \<in> set entries \<Longrightarrow> length (fst child) = Suc (length seq)" by simp
    have "list_all (subtreeOk K1 d) entries = list_all (subtreeOk K2 d) entries"
      unfolding list_all_iff
    proof (rule ball_cong[OF refl])
      fix child assume "child \<in> set entries"
      from len[OF this] Suc.prems
      have "length (fst child) + d \<le> maxVowelCount K1" "length (fst child) + d \<le> maxVowelCount K2"
        by (simp_all add: entry)
      then show "subtreeOk K1 d child = subtreeOk K2 d child" by (rule Suc.IH)
    qed
    then show ?thesis using np Inr by (simp add: ex)
  qed
qed

lemma starts_mono:
  assumes same: "keyboardLayout K1 = keyboardLayout K2" "keyMoves K1 = keyMoves K2"
      "sequenceLength K1 = sequenceLength K2"
    and le: "maxVowelCount K1 \<le> maxVowelCount K2"
  shows "startsCount K1 cells \<le> startsCount K2 cells"
    and "startsOk K2 cells \<Longrightarrow> startsOk K1 cells"
proof -
  note m = subtree_mono[OF same(1,2) le]
  show "startsCount K1 cells \<le> startsCount K2 cells"
  proof (induction cells)
    case Nil
    show ?case by simp
  next
    case (Cons cell cells)
    obtain i j where cell: "cell = (i, j)" by (cases cell)
    from Cons m(1)[of "sequenceLength K2 - 1"] show ?case
      by (auto simp: cell same add_mono split: sum.split)
  qed
  show "startsOk K2 cells \<Longrightarrow> startsOk K1 cells"
  proof (induction cells)
    case Nil
    show ?case by simp
  next
    case (Cons cell cells)
    obtain i j where cell: "cell = (i, j)" by (cases cell)
    from Cons.prems Cons.IH m(2)[of "sequenceLength K2 - 1"] show ?case
      by (auto simp: cell same split: sum.splits if_splits)
  qed
qed

lemma starts_uncapped:
  assumes same: "keyboardLayout K1 = keyboardLayout K2" "keyMoves K1 = keyMoves K2"
      "sequenceLength K1 = sequenceLength K2"
    and one: "1 \<le> sequenceLength K1"
    and caps: "sequenceLength K1 \<le> maxVowelCount K1" "sequenceLength K1 \<le> maxVowelCount K2"
  shows "startsCount K1 cells = startsAll K1 cells"
    and "startsOk K1 cells = startsOk K2 cells"
proof -
  have c: "\<And>key pos. subtreeCount K1 (sequenceLength K1 - 1) ([key], pos)
                         = subtreeAll K1 (sequenceLength K1 - 1) ([key], pos)"
    by (rule subtree_uncapped) (use one caps in simp)
  have o: "\<And>key pos. subtreeOk K1 (sequenceLength K1 - 1) ([key], pos)
                         = subtreeOk K2 (sequenceLength K1 - 1) ([key], pos)"
    by (rule subtreeOk_uncapped[OF same(1,2)]) (use one caps in simp_all)
  show "startsCount K1 cells = startsAll K1 cells"
  proof (induction cells)
    case Nil
    show ?case by simp
  next
    case (Cons cell cells)
    obtain i j where cell: "cell = (i, j)" by (cases cell)
    from Cons show ?case by (simp add: cell c[unfolded One_nat_def] split: sum.split)
  qed
  show "startsOk K1 cells = startsOk K2 cells"
  proof (induction cells)
    case Nil
    show ?case by simp
  next
    case (Cons cell cells)
    obtain i j where cell: "cell = (i, j)" by (cases cell)
    from Cons show ?case by (simp add: cell o[unfolded One_nat_def] same[symmetric] split: sum.split)
  qed
qed

lemma Keyboard_ctor_other_cap:
  assumes "Keyboard_ctor len v kl piece = Inr K"
  shows "Keyboard_ctor len v' kl piece = Inr (K\<lparr>maxVowelCount := v'\<rparr>)"
  using assms unfolding Keyboard_ctor_Inr_iff by auto

lemma Keyboard_ctor_fields:
  assumes "Keyboard_ctor len v kl piece = Inr K"
  shows "sequenceLength K = len" "maxVowelCount K = v" "keyboardLayout K = kl" "1 \<le> len"
  using assms unfolding Keyboard_ctor_Inr_iff by auto

lemma aggregateCount_Inr_ctor:
  assumes "aggregateCount len v kl piece = Some (Inr c)"
  obtains K where "Keyboard_ctor len v kl piece = Inr K"
  using assms unfolding aggregateCount_def by (cases "Keyboard_ctor len v kl piece") simp_all

lemma aggregateCount_mono:
  assumes "v1 \<le> v2" "aggregateCount len v2 kl piece = Some (Inr c2)"
  shows "\<exists>c1. aggregateCount len v1 kl piece = Some (Inr c1) \<and> c1 \<le> c2"
proof -
  from assms(2) obtain K2 where K2: "Keyboard_ctor len v2 kl piece = Inr K2"
    by (rule aggregateCount_Inr_ctor)
  define K1 where "K1 = K2\<lparr>maxVowelCount := v1\<rparr>"
  have K1: "Keyboard_ctor len v1 kl piece = Inr K1"
    unfolding K1_def by (rule Keyboard_ctor_other_cap[OF K2])
  have same: "keyboardLayout K1 = keyboardLayout K2" "keyMoves K1 = keyMoves K2"
    "sequenceLength K1 = sequenceLength K2"
    by (simp_all add: K1_def)
  have le: "maxVowelCount K1 \<le> maxVowelCount K2"
    using assms(1) Keyboard_ctor_fields(2)[OF K2] by (simp add: K1_def)
  from assms(2) have ok2: "generateOk K2" and c2: "c2 = generateCount K2"
    by (simp_all add: aggregateCount_Inr_iff[OF K2])
  from ok2 have "generateOk K1"
    unfolding generateOk_def same(1) by (rule starts_mono(2)[OF same le])
  then have "aggregateCount len v1 kl piece = Some (Inr (generateCount K1))"
    by (simp add: aggregateCount_Inr_iff[OF K1])
  moreover have "generateCount K1 \<le> c2"
    unfolding c2 generateCount_def same(1) by (rule starts_mono(1)[OF same le])
  ultimately show ?thesis by blast
qed

lemma aggregateCount_uncapped:
  assumes "len \<le> v" "len \<le> v'" "aggregateCount len v kl piece = Some (Inr c)"
  shows "aggregateCount len v' kl piece = Some (Inr c)"
    and "\<exists>K. Keyboard_ctor len v kl piece = Inr K \<and> c = unconstrainedCount K"
proof -
  from assms(3) obtain K where K: "Keyboard_ctor len v kl piece = Inr K"
    by (rule aggregateCount_Inr_ctor)
  define K' where "K' = K\<lparr>maxVowelCount := v'\<rparr>"
  have K': "Keyboard_ctor len v' kl piece = Inr K'"
    unfolding K'_def by (rule Keyboard_ctor_other_cap[OF K])
  note f = Keyboard_ctor_fields[OF K]
  have same: "keyboardLayout K = keyboardLayout K'" "keyMoves K = keyMoves K'"
    "sequenceLength K = sequenceLength K'"
    by (simp_all add: K'_def)
  have one: "1 \<le> sequenceLength K" using f by simp
  have caps: "sequenceLength K \<le> maxVowelCount K" "sequenceLength K \<le> maxVowelCount K'"
    using f assms(1,2) by (simp_all add: K'_def)
  have one': "1 \<le> sequenceLength K'" using one by (simp add: K'_def)
  have caps': "sequenceLength K' \<le> maxVowelCount K'" "sequenceLength K' \<le> maxVowelCount K"
    using caps by (simp_all add: K'_def)
  from assms(3) have ok: "generateOk K" and c: "c = generateCount K"
    by (simp_all add: aggregateCount_Inr_iff[OF K])
  have all: "generateCount K = unconstrainedCount K"
    unfolding generateCount_def unconstrainedCount_def
    by (rule starts_uncapped(1)[OF same one caps])
  have all': "generateCount K' = unconstrainedCount K'"
    unfolding generateCount_def unconstrainedCount_def
    by (rule starts_uncapped(1)[OF same[symmetric] one' caps'])
  have ex: "expand K = expand K'" by (rule expand_cong[OF same(1,2)])
  have sa: "subtreeAll K = subtreeAll K'"
  proof (intro ext)
    fix d entry show "subtreeAll K d entry = subtreeAll K' d entry"
      by (induction d arbitrary: entry) (simp_all add: ex cong: map_cong split: sum.split)
  qed
  have "startsAll K cells = startsAll K' cells" for cells
    by (induction cells) (auto simp: sa same[symmetric] split: sum.split)
  then have un: "unconstrainedCount K = unconstrainedCount K'"
    by (simp add: unconstrainedCount_def same[symmetric])
  have "startsOk K cells = startsOk K' cells" for cells
    by (rule starts_uncapped(2)[OF same one caps])
  with ok have "generateOk K'"
    by (simp add: generateOk_def K'_def)
  then show "aggregateCount len v' kl piece = Some (Inr c)"
    by (simp add: aggregateCount_Inr_iff[OF K'] c all all' un)
  show "\<exists>K. Keyboard_ctor len v kl piece = Inr K \<and> c = unconstrainedCount K"
    using K c all by auto
qed

text \<open>
  Claim C7. For a fixed layout, piece and sequence length: when the enumeration with the
  larger vowel limit returns a count, the enumeration with a smaller limit returns a count
  too, and it is not larger; every count is bounded by the count for a limit equal to the
  sequence length; and a limit of at least the sequence length gives the same count as that
  limit, which is the number of sequences the search reaches with no vowel test at all.
\<close>

theorem vowel_cap_monotone:
  "(v1 \<le> v2 \<longrightarrow> aggregateCount len v2 kl piece = Some (Inr c2) \<longrightarrow>
      (\<exists>c1. aggregateCount len v1 kl piece = Some (Inr c1) \<and> c1 \<le> c2))
   \<and> (aggregateCount len len kl piece = Some (Inr cL) \<longrightarrow>
      (\<exists>c. aggregateCount len v kl piece = Some (Inr c) \<and> c \<le> cL))
   \<and> (len \<le> v \<longrightarrow> aggregateCount len v kl piece = Some (Inr c) \<longrightarrow>
      aggregateCount len len kl piece = Some (Inr c)
      \<and> (\<exists>K. Keyboard_ctor len v kl piece = Inr K \<and> c = unconstrainedCount K))"
proof (intro conjI impI)
  assume "v1 \<le> v2" "aggregateCount len v2 kl piece = Some (Inr c2)"
  then show "\<exists>c1. aggregateCount len v1 kl piece = Some (Inr c1) \<and> c1 \<le> c2"
    by (rule aggregateCount_mono)
next
  assume L: "aggregateCount len len kl piece = Some (Inr cL)"
  show "\<exists>c. aggregateCount len v kl piece = Some (Inr c) \<and> c \<le> cL"
  proof (cases "v \<le> len")
    case True
    then show ?thesis using L by (rule aggregateCount_mono)
  next
    case False
    then have "len \<le> v" by simp
    from aggregateCount_uncapped(1)[OF le_refl this L] show ?thesis by auto
  qed
next
  assume a: "len \<le> v" "aggregateCount len v kl piece = Some (Inr c)"
  show "aggregateCount len len kl piece = Some (Inr c)"
    by (rule aggregateCount_uncapped(1)[OF a(1) le_refl a(2)])
  show "\<exists>K. Keyboard_ctor len v kl piece = Inr K \<and> c = unconstrainedCount K"
    by (rule aggregateCount_uncapped(2)[OF a(1) a(1) a(2)])
qed

lemma smallLayout_counts:
  "aggregateCount 3 0 smallLayout Knight = Some (Inr 2)"
  "aggregateCount 3 1 smallLayout Knight = Some (Inr 3)"
  "aggregateCount 3 3 smallLayout Knight = Some (Inr 4)"
  "aggregateCount 3 5 smallLayout Knight = Some (Inr 4)"
  by code_simp+

theorem vowel_cap_monotone_witness:
  "(0::nat) \<le> 1 \<and> aggregateCount 3 1 smallLayout Knight = Some (Inr 3)
   \<and> (\<exists>c1. aggregateCount 3 0 smallLayout Knight = Some (Inr c1) \<and> c1 \<le> 3)
   \<and> aggregateCount 3 3 smallLayout Knight = Some (Inr 4)
   \<and> (\<exists>c. aggregateCount 3 0 smallLayout Knight = Some (Inr c) \<and> c \<le> 4)
   \<and> (3::nat) \<le> 5 \<and> aggregateCount 3 5 smallLayout Knight = Some (Inr 4)
   \<and> (\<exists>K. Keyboard_ctor 3 5 smallLayout Knight = Inr K \<and> 4 = unconstrainedCount K)"
  using vowel_cap_monotone[of 0 1 3 smallLayout Knight 3 4 5 4, unfolded smallLayout_counts]
    smallLayout_counts
  by simp


lemma smallKeyboard_ctor: "Keyboard_ctor 3 1 smallLayout Knight = Inr smallKeyboard"
  by (simp add: Keyboard_ctor_def SetValidMovesForAllKeys_def rowMajor_def GetRows_def GetCols_def
      smallLayout_def smallKeyboard_def Knight_def Knight_GetMoves_def Knight_IsValidMove_def
      subscript_def subscript2_def map_insert_def Let_def upto.simps)


subsection \<open>The move table\<close>

lemma Knight_IsValidMove_legalMove:
  assumes "rectangular layout"
  shows "Knight_IsValidMove x y dx dy invalidKey layout = Inr (legalMove layout invalidKey x y (dx, dy))"
  unfolding Knight_IsValidMove_rectangular[OF assms] legalMove_def fst_conv snd_conv knight_shape ..

lemma collectMoves_Knight:
  assumes "rectangular layout"
  shows "collectMoves Knight i j invalidKey layout moves chessPieceMoves
           = Inr (moves @ filter (legalMove layout invalidKey i j) chessPieceMoves)"
proof (induction chessPieceMoves arbitrary: moves)
  case Nil
  show ?case by simp
next
  case (Cons m ms)
  have v: "IsValidMove Knight i j (fst m) (snd m) invalidKey layout = Inr (legalMove layout invalidKey i j m)"
    using Knight_IsValidMove_legalMove[OF assms, of i j "fst m" "snd m" invalidKey]
    by (simp add: Knight_def)
  show ?case by (simp add: v Cons.IH)
qed

lemma set_rowMajor:
  "set (rowMajor ROWS COLS) = {(i, j). 0 \<le> i \<and> i < ROWS \<and> 0 \<le> j \<and> j < COLS}"
  by (auto simp: rowMajor_def)

lemma rectangular_dims:
  assumes "rectangular (GetLayout kl)"
  shows "GetRows kl = int (length (GetLayout kl))" "GetCols kl = int (length (hd (GetLayout kl)))"
  using assms by (cases "GetLayout kl"; simp add: rectangular_def GetRows_def GetCols_def)+

lemma rowMajor_inBounds:
  assumes "rectangular (GetLayout kl)"
  shows "(i, j) \<in> set (rowMajor (GetRows kl) (GetCols kl)) \<longleftrightarrow> inBounds (GetLayout kl) i j"
  by (simp add: set_rowMajor rectangular_dims[OF assms] inBounds_def)

lemma setMovesLoop_Knight:
  assumes rect: "rectangular layout"
    and cells: "\<And>i j. (i, j) \<in> set cells \<Longrightarrow> inBounds layout i j"
  shows "setMovesLoop Knight invalidKey layout cells km =
     Inr (\<lambda>key. case km key of
                   Some moves \<Rightarrow> Some moves
                 | None \<Rightarrow>
                     if key = invalidKey then None
                     else (case find (\<lambda>(a, b). labelAt layout a b = key) cells of
                             None \<Rightarrow> None
                           | Some (a, b) \<Rightarrow> Some (legalMoves layout invalidKey a b)))"
  using cells
proof (induction cells arbitrary: km)
  case Nil
  show ?case by (simp add: fun_eq_iff split: option.split)
next
  case (Cons cell cells)
  obtain i j where cell: "cell = (i, j)" by (cases cell)
  have ib: "inBounds layout i j" using Cons.prems[of i j] by (simp add: cell)
  note rd = subscript2_inBounds[OF rect ib]
  have cm: "collectMoves Knight i j invalidKey layout [] (GetMoves Knight) = Inr (legalMoves layout invalidKey i j)"
  proof -
    have "GetMoves Knight = Knight_GetMoves" by (simp add: Knight_def)
    then show ?thesis by (simp add: collectMoves_Knight[OF rect] legalMoves_def)
  qed
  have IH: "\<And>km'. setMovesLoop Knight invalidKey layout cells km' =
     Inr (\<lambda>key. case km' key of
                   Some moves \<Rightarrow> Some moves
                 | None \<Rightarrow>
                     if key = invalidKey then None
                     else (case find (\<lambda>(a, b). labelAt layout a b = key) cells of
                             None \<Rightarrow> None
                           | Some (a, b) \<Rightarrow> Some (legalMoves layout invalidKey a b)))"
    by (rule Cons.IH) (use Cons.prems in simp)
  show ?case
  proof (cases "labelAt layout i j = invalidKey")
    case True
    have "setMovesLoop Knight invalidKey layout (cell # cells) km = setMovesLoop Knight invalidKey layout cells km"
      by (simp add: cell rd True)
    also note IH[of km]
    finally show ?thesis
      using True by (auto simp: cell fun_eq_iff split: option.split)
  next
    case False
    have "setMovesLoop Knight invalidKey layout (cell # cells) km
            = setMovesLoop Knight invalidKey layout cells
                (map_insert km (labelAt layout i j) (legalMoves layout invalidKey i j))"
      by (simp add: cell rd False cm)
    also note IH[of "map_insert km (labelAt layout i j) (legalMoves layout invalidKey i j)"]
    finally show ?thesis
      using False by (auto simp: cell fun_eq_iff map_insert_def split: option.split)
  qed
qed

lemma Keyboard_ctor_Knight:
  assumes rect: "rectangular (GetLayout kl)" and len: "1 \<le> len"
  shows "Keyboard_ctor len vowels kl Knight =
     Inr \<lparr>sequenceLength = len, maxVowelCount = vowels, keyboardLayout = kl, chessPiecePtr = Knight,
          keyMoves = (\<lambda>key. if key = GetInvalidKey kl then None
                             else (case firstCell kl key of
                                     None \<Rightarrow> None
                                   | Some (a, b) \<Rightarrow> Some (legalMoves (GetLayout kl) (GetInvalidKey kl) a b)))\<rparr>"
proof -
  have "setMovesLoop Knight (GetInvalidKey kl) (GetLayout kl) (rowMajor (GetRows kl) (GetCols kl)) Map.empty
     = Inr (\<lambda>key. if key = GetInvalidKey kl then None
                             else (case firstCell kl key of
                                     None \<Rightarrow> None
                                   | Some (a, b) \<Rightarrow> Some (legalMoves (GetLayout kl) (GetInvalidKey kl) a b)))"
    unfolding firstCell_def
    by (subst setMovesLoop_Knight[OF rect]) (simp_all add: rowMajor_inBounds[OF rect])
  then show ?thesis
    using len by (simp add: Keyboard_ctor_Inr_iff)
qed

lemma firstCell_exists:
  assumes rect: "rectangular (GetLayout kl)" and ib: "inBounds (GetLayout kl) i j"
  obtains a b where "firstCell kl (labelAt (GetLayout kl) i j) = Some (a, b)"
    "inBounds (GetLayout kl) a b" "labelAt (GetLayout kl) a b = labelAt (GetLayout kl) i j"
proof -
  from ib have mem: "(i, j) \<in> set (rowMajor (GetRows kl) (GetCols kl))"
    by (simp add: rowMajor_inBounds[OF rect])
  then have "firstCell kl (labelAt (GetLayout kl) i j) \<noteq> None"
    unfolding firstCell_def find_None_iff by blast
  then obtain a b where f: "firstCell kl (labelAt (GetLayout kl) i j) = Some (a, b)"
    by (cases "firstCell kl (labelAt (GetLayout kl) i j)") auto
  from f[unfolded firstCell_def find_Some_iff] obtain n
    where n: "n < length (rowMajor (GetRows kl) (GetCols kl))"
      "rowMajor (GetRows kl) (GetCols kl) ! n = (a, b)"
      "labelAt (GetLayout kl) a b = labelAt (GetLayout kl) i j"
    by auto
  from n(1,2) have "(a, b) \<in> set (rowMajor (GetRows kl) (GetCols kl))"
    by (metis nth_mem)
  then have "inBounds (GetLayout kl) a b" by (simp add: rowMajor_inBounds[OF rect])
  with f n(3) that show ?thesis by blast
qed

lemma expand_valid_cell:
  assumes rect: "rectangular (GetLayout (keyboardLayout K))"
    and ib: "inBounds (GetLayout (keyboardLayout K)) i j"
    and km: "keyMoves K (labelAt (GetLayout (keyboardLayout K)) i j) = Some moves"
  shows "expand K (seq, (i, j)) = pushMoves (GetLayout (keyboardLayout K)) seq i j moves []"
  by (simp add: expand_def subscript2_inBounds[OF rect ib] GetValidMovesForAKey_def km)

text \<open>
  Claim C10. On every grid the constructor of \<^verbatim>\<open>Keyboard\<close> succeeds, and for every cell that
  is not the invalid key the table holds, under the label of the cell, the list of legal moves
  that \<^verbatim>\<open>SetValidMovesForAllKeys\<close> computed for the first cell in row-major order that
  carries this label. During enumeration the loop body, taking from the queue an entry at the
  cell that is within the vowel limit and shorter than the sequence length, looks up that
  list and appends to the queue one entry for each of its offsets, and the loop goes on with
  the queue so extended.
\<close>

theorem first_cell_moves_kept:
  assumes "rectangular (GetLayout kl)" "1 \<le> len"
  shows "\<exists>K. Keyboard_ctor len vowels kl Knight = Inr K \<and>
     (\<forall>i j. inBounds (GetLayout kl) i j \<and> labelAt (GetLayout kl) i j \<noteq> GetInvalidKey kl \<longrightarrow>
        (\<exists>a b. firstCell kl (labelAt (GetLayout kl) i j) = Some (a, b)
           \<and> collectMoves Knight a b (GetInvalidKey kl) (GetLayout kl) [] (GetMoves Knight)
               = Inr (legalMoves (GetLayout kl) (GetInvalidKey kl) a b)
           \<and> GetValidMovesForAKey K (labelAt (GetLayout kl) i j)
               = Inr (legalMoves (GetLayout kl) (GetInvalidKey kl) a b)
           \<and> (\<forall>start seq rest sequences.
                 \<not> CountVowels seq > maxVowelCount K \<and> length seq \<noteq> sequenceLength K \<longrightarrow>
                 loopBody K start (seq, (i, j)) rest sequences =
                   (case pushMoves (GetLayout kl) seq i j
                           (legalMoves (GetLayout kl) (GetInvalidKey kl) a b) rest of
                      Inl e \<Rightarrow> Inl e
                    | Inr q' \<Rightarrow> Inr (q', sequences))
                 \<and> bfs K start ((seq, (i, j)) # rest) sequences =
                   (case pushMoves (GetLayout kl) seq i j
                           (legalMoves (GetLayout kl) (GetInvalidKey kl) a b) rest of
                      Inl e \<Rightarrow> Some (Inl e)
                    | Inr q' \<Rightarrow> bfs K start q' sequences))))"
proof -
  let ?L = "GetLayout kl" and ?inv = "GetInvalidKey kl"
  define K where "K = \<lparr>sequenceLength = len, maxVowelCount = vowels, keyboardLayout = kl, chessPiecePtr = Knight,
          keyMoves = (\<lambda>key. if key = ?inv then None
                             else (case firstCell kl key of
                                     None \<Rightarrow> None
                                   | Some (a, b) \<Rightarrow> Some (legalMoves ?L ?inv a b)))\<rparr>"
  have ctor: "Keyboard_ctor len vowels kl Knight = Inr K"
    unfolding K_def by (rule Keyboard_ctor_Knight[OF assms])
  have kl: "keyboardLayout K = kl" by (simp add: K_def)
  have "\<exists>a b. firstCell kl (labelAt ?L i j) = Some (a, b)
           \<and> collectMoves Knight a b ?inv ?L [] (GetMoves Knight) = Inr (legalMoves ?L ?inv a b)
           \<and> GetValidMovesForAKey K (labelAt ?L i j) = Inr (legalMoves ?L ?inv a b)
           \<and> (\<forall>start seq rest sequences.
                 \<not> CountVowels seq > maxVowelCount K \<and> length seq \<noteq> sequenceLength K \<longrightarrow>
                 loopBody K start (seq, (i, j)) rest sequences =
                   (case pushMoves ?L seq i j (legalMoves ?L ?inv a b) rest of
                      Inl e \<Rightarrow> Inl e
                    | Inr q' \<Rightarrow> Inr (q', sequences))
                 \<and> bfs K start ((seq, (i, j)) # rest) sequences =
                   (case pushMoves ?L seq i j (legalMoves ?L ?inv a b) rest of
                      Inl e \<Rightarrow> Some (Inl e)
                    | Inr q' \<Rightarrow> bfs K start q' sequences))"
    if ib: "inBounds ?L i j" and valid: "labelAt ?L i j \<noteq> ?inv" for i j
  proof -
    from firstCell_exists[OF assms(1) ib] obtain a b
      where f: "firstCell kl (labelAt ?L i j) = Some (a, b)" by blast
    have km: "keyMoves K (labelAt ?L i j) = Some (legalMoves ?L ?inv a b)"
      using valid f by (simp add: K_def)
    have gv: "GetValidMovesForAKey K (labelAt ?L i j) = Inr (legalMoves ?L ?inv a b)"
      by (simp add: GetValidMovesForAKey_def km)
    have gm: "GetMoves Knight = Knight_GetMoves" by (simp add: Knight_def)
    have cm: "collectMoves Knight a b ?inv ?L [] (GetMoves Knight) = Inr (legalMoves ?L ?inv a b)"
      by (simp add: gm collectMoves_Knight[OF assms(1)] legalMoves_def)
    have rd: "subscript2 (GetLayout (keyboardLayout K)) i j = Inr (labelAt ?L i j)"
      unfolding kl by (rule subscript2_inBounds[OF assms(1) ib])
    have lb: "loopBody K start (seq, (i, j)) rest sequences =
                   (case pushMoves ?L seq i j (legalMoves ?L ?inv a b) rest of
                      Inl e \<Rightarrow> Inl e
                    | Inr q' \<Rightarrow> Inr (q', sequences))"
      if "\<not> CountVowels seq > maxVowelCount K \<and> length seq \<noteq> sequenceLength K"
      for start seq rest sequences
      using that unfolding loopBody_def by (simp add: rd gv) (simp add: kl)
    have bf: "bfs K start ((seq, (i, j)) # rest) sequences =
                   (case pushMoves ?L seq i j (legalMoves ?L ?inv a b) rest of
                      Inl e \<Rightarrow> Some (Inl e)
                    | Inr q' \<Rightarrow> bfs K start q' sequences)"
      if "\<not> CountVowels seq > maxVowelCount K \<and> length seq \<noteq> sequenceLength K"
      for start seq rest sequences
      unfolding bfs_Cons lb[OF that] by (simp split: sum.split)
    show ?thesis
      using f cm gv lb bf by blast
  qed
  with ctor show ?thesis by blast
qed

lemma dupLayout_facts:
  "rectangular (GetLayout dupLayout)"
  "inBounds (GetLayout dupLayout) 0 1"
  "labelAt (GetLayout dupLayout) 0 1 = CHR ''X''"
  "GetInvalidKey dupLayout = CHR ''.''"
  "firstCell dupLayout (CHR ''X'') = Some (0, 0)"
  "legalMoves (GetLayout dupLayout) (CHR ''.'') 0 0 = [(2, 1)]"
  "legalMoves (GetLayout dupLayout) (CHR ''.'') 0 1 = []"
  by code_simp+

theorem first_cell_moves_kept_witness:
  "rectangular (GetLayout dupLayout) \<and> (1::nat) \<le> 3
   \<and> inBounds (GetLayout dupLayout) 0 1 \<and> labelAt (GetLayout dupLayout) 0 1 \<noteq> GetInvalidKey dupLayout
   \<and> firstCell dupLayout (labelAt (GetLayout dupLayout) 0 1) = Some (0, 0)
   \<and> legalMoves (GetLayout dupLayout) (CHR ''.'') 0 1 = []
   \<and> (\<exists>K. Keyboard_ctor 3 2 dupLayout Knight = Inr K
         \<and> GetValidMovesForAKey K (labelAt (GetLayout dupLayout) 0 1) = Inr [(2, 1)]
         \<and> loopBody K (CHR ''X'') (''X'', (0, 1)) [] [] = Inr ([(''X.'', (2, 2))], []))"
proof -
  have one: "(1::nat) \<le> 3" by simp
  have v: "inBounds (GetLayout dupLayout) 0 1 \<and> labelAt (GetLayout dupLayout) 0 1 \<noteq> GetInvalidKey dupLayout"
    by (simp add: dupLayout_facts)
  from first_cell_moves_kept[OF dupLayout_facts(1) one, of 2]
  obtain K where KK: "Keyboard_ctor 3 2 dupLayout Knight = Inr K \<and>
     (\<forall>i j. inBounds (GetLayout dupLayout) i j \<and> labelAt (GetLayout dupLayout) i j \<noteq> GetInvalidKey dupLayout \<longrightarrow>
        (\<exists>a b. firstCell dupLayout (labelAt (GetLayout dupLayout) i j) = Some (a, b)
           \<and> collectMoves Knight a b (GetInvalidKey dupLayout) (GetLayout dupLayout) [] (GetMoves Knight)
               = Inr (legalMoves (GetLayout dupLayout) (GetInvalidKey dupLayout) a b)
           \<and> GetValidMovesForAKey K (labelAt (GetLayout dupLayout) i j)
               = Inr (legalMoves (GetLayout dupLayout) (GetInvalidKey dupLayout) a b)
           \<and> (\<forall>start seq rest sequences.
                 \<not> CountVowels seq > maxVowelCount K \<and> length seq \<noteq> sequenceLength K \<longrightarrow>
                 loopBody K start (seq, (i, j)) rest sequences =
                   (case pushMoves (GetLayout dupLayout) seq i j
                           (legalMoves (GetLayout dupLayout) (GetInvalidKey dupLayout) a b) rest of
                      Inl e \<Rightarrow> Inl e
                    | Inr q' \<Rightarrow> Inr (q', sequences))
                 \<and> bfs K start ((seq, (i, j)) # rest) sequences =
                   (case pushMoves (GetLayout dupLayout) seq i j
                           (legalMoves (GetLayout dupLayout) (GetInvalidKey dupLayout) a b) rest of
                      Inl e \<Rightarrow> Some (Inl e)
                    | Inr q' \<Rightarrow> bfs K start q' sequences))))" ..
  from KK have K: "Keyboard_ctor 3 2 dupLayout Knight = Inr K" by (rule conjunct1)
  from KK[THEN conjunct2, rule_format, OF v]
  obtain a where "\<exists>b. firstCell dupLayout (labelAt (GetLayout dupLayout) 0 1) = Some (a, b)
           \<and> collectMoves Knight a b (GetInvalidKey dupLayout) (GetLayout dupLayout) [] (GetMoves Knight)
               = Inr (legalMoves (GetLayout dupLayout) (GetInvalidKey dupLayout) a b)
           \<and> GetValidMovesForAKey K (labelAt (GetLayout dupLayout) 0 1)
               = Inr (legalMoves (GetLayout dupLayout) (GetInvalidKey dupLayout) a b)
           \<and> (\<forall>start seq rest sequences.
                 \<not> CountVowels seq > maxVowelCount K \<and> length seq \<noteq> sequenceLength K \<longrightarrow>
                 loopBody K start (seq, (0, 1)) rest sequences =
                   (case pushMoves (GetLayout dupLayout) seq 0 1
                           (legalMoves (GetLayout dupLayout) (GetInvalidKey dupLayout) a b) rest of
                      Inl e \<Rightarrow> Inl e
                    | Inr q' \<Rightarrow> Inr (q', sequences))
                 \<and> bfs K start ((seq, (0, 1)) # rest) sequences =
                   (case pushMoves (GetLayout dupLayout) seq 0 1
                           (legalMoves (GetLayout dupLayout) (GetInvalidKey dupLayout) a b) rest of
                      Inl e \<Rightarrow> Some (Inl e)
                    | Inr q' \<Rightarrow> bfs K start q' sequences))" ..
  then obtain b where ab4: "firstCell dupLayout (labelAt (GetLayout dupLayout) 0 1) = Some (a, b)
           \<and> collectMoves Knight a b (GetInvalidKey dupLayout) (GetLayout dupLayout) [] (GetMoves Knight)
               = Inr (legalMoves (GetLayout dupLayout) (GetInvalidKey dupLayout) a b)
           \<and> GetValidMovesForAKey K (labelAt (GetLayout dupLayout) 0 1)
               = Inr (legalMoves (GetLayout dupLayout) (GetInvalidKey dupLayout) a b)
           \<and> (\<forall>start seq rest sequences.
                 \<not> CountVowels seq > maxVowelCount K \<and> length seq \<noteq> sequenceLength K \<longrightarrow>
                 loopBody K start (seq, (0, 1)) rest sequences =
                   (case pushMoves (GetLayout dupLayout) seq 0 1
                           (legalMoves (GetLayout dupLayout) (GetInvalidKey dupLayout) a b) rest of
                      Inl e \<Rightarrow> Inl e
                    | Inr q' \<Rightarrow> Inr (q', sequences))
                 \<and> bfs K start ((seq, (0, 1)) # rest) sequences =
                   (case pushMoves (GetLayout dupLayout) seq 0 1
                           (legalMoves (GetLayout dupLayout) (GetInvalidKey dupLayout) a b) rest of
                      Inl e \<Rightarrow> Some (Inl e)
                    | Inr q' \<Rightarrow> bfs K start q' sequences))" ..
  from ab4 have f: "firstCell dupLayout (labelAt (GetLayout dupLayout) 0 1) = Some (a, b)"
    by (rule conjunct1)
  from ab4 have g: "GetValidMovesForAKey K (labelAt (GetLayout dupLayout) 0 1)
               = Inr (legalMoves (GetLayout dupLayout) (GetInvalidKey dupLayout) a b)"
    by (rule conjunct2[THEN conjunct2, THEN conjunct1])
  from ab4 have lb: "\<forall>start seq rest sequences.
                 \<not> CountVowels seq > maxVowelCount K \<and> length seq \<noteq> sequenceLength K \<longrightarrow>
                 loopBody K start (seq, (0, 1)) rest sequences =
                   (case pushMoves (GetLayout dupLayout) seq 0 1
                           (legalMoves (GetLayout dupLayout) (GetInvalidKey dupLayout) a b) rest of
                      Inl e \<Rightarrow> Inl e
                    | Inr q' \<Rightarrow> Inr (q', sequences))
                 \<and> bfs K start ((seq, (0, 1)) # rest) sequences =
                   (case pushMoves (GetLayout dupLayout) seq 0 1
                           (legalMoves (GetLayout dupLayout) (GetInvalidKey dupLayout) a b) rest of
                      Inl e \<Rightarrow> Some (Inl e)
                    | Inr q' \<Rightarrow> bfs K start q' sequences)"
    by (rule conjunct2[THEN conjunct2, THEN conjunct2])
  from f have ab: "a = 0" "b = 0" by (simp_all add: dupLayout_facts)
  have lm: "legalMoves (GetLayout dupLayout) (GetInvalidKey dupLayout) a b = [(2, 1)]"
    by (simp add: ab dupLayout_facts)
  note fields = Keyboard_ctor_fields[OF K]
  have c: "\<not> CountVowels ''X'' > maxVowelCount K \<and> length ''X'' \<noteq> sequenceLength K"
    by (simp add: fields IsVowel_def)
  have pm: "pushMoves (GetLayout dupLayout) ''X'' 0 1 [(2, 1)] [] = Inr [(''X.'', (2, 2))]"
    by code_simp
  have "loopBody K (CHR ''X'') (''X'', (0, 1)) [] [] = Inr ([(''X.'', (2, 2))], [])"
    using lb[rule_format, OF c, of "CHR ''X''" "[]" "[]", THEN conjunct1] unfolding lm pm by simp
  moreover have "GetValidMovesForAKey K (labelAt (GetLayout dupLayout) 0 1) = Inr [(2, 1)]"
    using g by (simp add: lm)
  ultimately show ?thesis
    using K v one by (auto simp: dupLayout_facts)
qed

subsection \<open>Layouts with distinct labels\<close>

lemma CountVowels_snoc: "CountVowels (seq @ [c]) = CountVowels seq + vowelValue c"
  by (induction seq) (simp_all add: vowelValue_def)

lemma legalMoves_valid:
  assumes "m \<in> set (legalMoves (GetLayout kl) (GetInvalidKey kl) x y)"
  shows "validCell kl (target (x, y) m)"
  using assms by (simp add: legalMoves_def legalMove_def validCell_def target_def)

lemma pushMoves_inBounds:
  assumes rect: "rectangular layout"
    and ib: "\<And>m. m \<in> set moves \<Longrightarrow> inBounds layout (x + fst m) (y + snd m)"
  shows "pushMoves layout seq x y moves q =
     Inr (q @ map (\<lambda>m. (seq @ [labelAt layout (x + fst m) (y + snd m)], (x + fst m, y + snd m))) moves)"
  using ib
proof (induction moves arbitrary: q)
  case Nil
  show ?case by simp
next
  case (Cons m moves)
  have "inBounds layout (x + fst m) (y + snd m)" using Cons.prems by simp
  note rd = subscript2_inBounds[OF rect this]
  have "pushMoves layout seq x y (m # moves) q
          = pushMoves layout seq x y moves (q @ [(seq @ [labelAt layout (x + fst m) (y + snd m)], (x + fst m, y + snd m))])"
    by (simp add: Let_def rd)
  also have "\<dots> = Inr ((q @ [(seq @ [labelAt layout (x + fst m) (y + snd m)], (x + fst m, y + snd m))])
                      @ map (\<lambda>m. (seq @ [labelAt layout (x + fst m) (y + snd m)], (x + fst m, y + snd m))) moves)"
    by (rule Cons.IH) (use Cons.prems in simp)
  finally show ?case by simp
qed

lemma firstCell_unique:
  assumes rect: "rectangular (GetLayout kl)" and dist: "distinctLabels kl" and valid: "validCell kl (i, j)"
  shows "firstCell kl (labelAt (GetLayout kl) i j) = Some (i, j)"
proof -
  let ?f = "\<lambda>(i, j). labelAt (GetLayout kl) i j"
  let ?cells = "rowMajor (GetRows kl) (GetCols kl)"
  from valid have ib: "inBounds (GetLayout kl) i j" and ne: "labelAt (GetLayout kl) i j \<noteq> GetInvalidKey kl"
    by (simp_all add: validCell_def)
  from firstCell_exists[OF rect ib] obtain a b
    where f: "firstCell kl (labelAt (GetLayout kl) i j) = Some (a, b)"
      and ab: "inBounds (GetLayout kl) a b" "labelAt (GetLayout kl) a b = labelAt (GetLayout kl) i j"
    by blast
  have "distinct (map ?f (filter (\<lambda>p. ?f p \<noteq> GetInvalidKey kl) ?cells))"
    using dist by (simp add: distinctLabels_def filter_map comp_def)
  then have inj: "inj_on ?f (set (filter (\<lambda>p. ?f p \<noteq> GetInvalidKey kl) ?cells))"
    by (simp add: distinct_map)
  have "(a, b) \<in> set (filter (\<lambda>p. ?f p \<noteq> GetInvalidKey kl) ?cells)"
    using ab ne by (simp add: rowMajor_inBounds[OF rect])
  moreover have "(i, j) \<in> set (filter (\<lambda>p. ?f p \<noteq> GetInvalidKey kl) ?cells)"
    using ib ne by (simp add: rowMajor_inBounds[OF rect])
  moreover have "?f (a, b) = ?f (i, j)" using ab by simp
  ultimately have "(a, b) = (i, j)" by (rule inj_onD[OF inj, rotated 1])
  with f show ?thesis by simp
qed

lemma expand_exact:
  assumes ex: "exactTable K" and valid: "validCell (keyboardLayout K) p"
  shows "expand K (seq, p) =
     Inr (map (child (keyboardLayout K) (seq, p))
            (legalMoves (GetLayout (keyboardLayout K)) (GetInvalidKey (keyboardLayout K)) (fst p) (snd p)))"
proof -
  let ?kl = "keyboardLayout K"
  let ?L = "GetLayout ?kl"
  obtain x y where p: "p = (x, y)" by (cases p)
  from ex have rect: "rectangular ?L" by (simp add: exactTable_def)
  from valid have ib: "inBounds ?L x y" by (simp add: validCell_def p)
  from ex valid have km: "keyMoves K (labelAt ?L x y) = Some (legalMoves ?L (GetInvalidKey ?kl) x y)"
    unfolding exactTable_def p by fastforce
  have tb: "inBounds ?L (x + fst m) (y + snd m)" if "m \<in> set (legalMoves ?L (GetInvalidKey ?kl) x y)" for m
    using legalMoves_valid[OF that] by (simp add: validCell_def target_def)
  have pm: "pushMoves ?L seq x y (legalMoves ?L (GetInvalidKey ?kl) x y) []
      = Inr ([] @ map (\<lambda>m. (seq @ [labelAt ?L (x + fst m) (y + snd m)], (x + fst m, y + snd m)))
                    (legalMoves ?L (GetInvalidKey ?kl) x y))"
    by (rule pushMoves_inBounds[OF rect tb])
  show ?thesis
    unfolding p expand_valid_cell[OF rect ib km] pm
    by (simp add: child_def target_def)
qed

lemma child_facts:
  "fst (child kl (seq, p) m) = seq @ [labelAt (GetLayout kl) (fst (target p m)) (snd (target p m))]"
  "snd (child kl (seq, p) m) = target p m"
  by (simp_all add: child_def)

lemma subtreeOk_exact:
  assumes ex: "exactTable K"
  shows "validCell (keyboardLayout K) (snd entry) \<Longrightarrow> subtreeOk K d entry"
proof (induction d arbitrary: entry)
  case 0
  show ?case by simp
next
  case (Suc d)
  obtain seq p where entry: "entry = (seq, p)" by (cases entry)
  from Suc.prems have valid: "validCell (keyboardLayout K) p" by (simp add: entry)
  have "subtreeOk K d (child (keyboardLayout K) (seq, p) m)"
    if "m \<in> set (legalMoves (GetLayout (keyboardLayout K)) (GetInvalidKey (keyboardLayout K)) (fst p) (snd p))" for m
  proof (rule Suc.IH)
    from legalMoves_valid[of m "keyboardLayout K" "fst p" "snd p"] that
    show "validCell (keyboardLayout K) (snd (child (keyboardLayout K) (seq, p) m))"
      by (simp add: child_facts)
  qed
  then show ?case
    unfolding entry by (simp add: expand_exact[OF ex valid] list_all_iff)
qed

lemma subtreeCount_exact:
  assumes ex: "exactTable K"
  shows "validCell (keyboardLayout K) (snd entry) \<Longrightarrow>
    subtreeCount K d entry = walks (keyboardLayout K) (maxVowelCount K) d (CountVowels (fst entry)) (snd entry)"
proof (induction d arbitrary: entry)
  case 0
  show ?case by simp
next
  case (Suc d)
  let ?kl = "keyboardLayout K"
  obtain seq p where entry: "entry = (seq, p)" by (cases entry)
  from Suc.prems have valid: "validCell ?kl p" by (simp add: entry)
  let ?ms = "legalMoves (GetLayout ?kl) (GetInvalidKey ?kl) (fst p) (snd p)"
  have "map (subtreeCount K d) (map (child ?kl (seq, p)) ?ms)
      = map (\<lambda>m. walks ?kl (maxVowelCount K) d
                    (CountVowels seq + vowelValue (labelAt (GetLayout ?kl) (fst (target p m)) (snd (target p m))))
                    (target p m)) ?ms"
    unfolding map_map
  proof (rule map_cong[OF refl])
    fix m assume m: "m \<in> set ?ms"
    from legalMoves_valid[of m ?kl "fst p" "snd p"] m
    have "validCell ?kl (snd (child ?kl (seq, p) m))" by (simp add: child_facts)
    from Suc.IH[OF this]
    show "(subtreeCount K d \<circ> child ?kl (seq, p)) m
      = walks ?kl (maxVowelCount K) d
          (CountVowels seq + vowelValue (labelAt (GetLayout ?kl) (fst (target p m)) (snd (target p m))))
          (target p m)"
      by (simp add: child_facts CountVowels_snoc)
  qed
  then have "sum_list (map (subtreeCount K d) (map (child ?kl (seq, p)) ?ms))
      = sum_list (map (\<lambda>m. walks ?kl (maxVowelCount K) d
                    (CountVowels seq + vowelValue (labelAt (GetLayout ?kl) (fst (target p m)) (snd (target p m))))
                    (target p m)) ?ms)"
    by (rule arg_cong)
  then show ?case
    unfolding entry by (simp add: expand_exact[OF ex valid])
qed

lemma starts_exact:
  assumes ex: "exactTable K"
    and cells: "\<And>i j. (i, j) \<in> set cells \<Longrightarrow> inBounds (GetLayout (keyboardLayout K)) i j"
  shows "startsOk K cells"
    and "startsCount K cells =
      sum_list (map (\<lambda>p. walks (keyboardLayout K) (maxVowelCount K) (sequenceLength K - 1)
                           (vowelValue (labelAt (GetLayout (keyboardLayout K)) (fst p) (snd p))) p)
                 (filter (validCell (keyboardLayout K)) cells))"
proof -
  let ?kl = "keyboardLayout K"
  from ex have rect: "rectangular (GetLayout ?kl)" by (simp add: exactTable_def)
  have "startsOk K cells \<and> startsCount K cells =
      sum_list (map (\<lambda>p. walks ?kl (maxVowelCount K) (sequenceLength K - 1)
                           (vowelValue (labelAt (GetLayout ?kl) (fst p) (snd p))) p)
                 (filter (validCell ?kl) cells))"
    using cells
  proof (induction cells)
    case Nil
    show ?case by simp
  next
    case (Cons cell cells)
    obtain i j where cell: "cell = (i, j)" by (cases cell)
    have ib: "inBounds (GetLayout ?kl) i j" using Cons.prems[of i j] by (simp add: cell)
    note rd = subscript2_inBounds[OF rect ib]
    have IH: "startsOk K cells \<and> startsCount K cells =
      sum_list (map (\<lambda>p. walks ?kl (maxVowelCount K) (sequenceLength K - 1)
                           (vowelValue (labelAt (GetLayout ?kl) (fst p) (snd p))) p)
                 (filter (validCell ?kl) cells))"
      by (rule Cons.IH) (use Cons.prems in simp)
    show ?case
    proof (cases "labelAt (GetLayout ?kl) i j = GetInvalidKey ?kl")
      case True
      then have "\<not> validCell ?kl (i, j)" by (simp add: validCell_def)
      with True IH show ?thesis by (simp add: cell rd)
    next
      case False
      with ib have v: "validCell ?kl (i, j)" by (simp add: validCell_def)
      have ok: "subtreeOk K (sequenceLength K - 1) ([labelAt (GetLayout ?kl) i j], (i, j))"
        by (rule subtreeOk_exact[OF ex]) (simp add: v)
      have cnt: "subtreeCount K (sequenceLength K - 1) ([labelAt (GetLayout ?kl) i j], (i, j))
        = walks ?kl (maxVowelCount K) (sequenceLength K - 1) (vowelValue (labelAt (GetLayout ?kl) i j)) (i, j)"
        by (subst subtreeCount_exact[OF ex]) (simp_all add: v vowelValue_def)
      from False v IH ok cnt show ?thesis
        by (simp add: cell rd del: One_nat_def)
    qed
  qed
  then show "startsOk K cells"
    and "startsCount K cells =
      sum_list (map (\<lambda>p. walks ?kl (maxVowelCount K) (sequenceLength K - 1)
                           (vowelValue (labelAt (GetLayout ?kl) (fst p) (snd p))) p)
                 (filter (validCell ?kl) cells))"
    by simp_all
qed

lemma Keyboard_ctor_exact:
  assumes rect: "rectangular (GetLayout kl)" and dist: "distinctLabels kl" and len: "1 \<le> len"
  obtains K where "Keyboard_ctor len vowels kl Knight = Inr K" "exactTable K"
    "sequenceLength K = len" "maxVowelCount K = vowels" "keyboardLayout K = kl"
proof -
  define K where "K = \<lparr>sequenceLength = len, maxVowelCount = vowels, keyboardLayout = kl, chessPiecePtr = Knight,
          keyMoves = (\<lambda>key. if key = GetInvalidKey kl then None
                             else (case firstCell kl key of
                                     None \<Rightarrow> None
                                   | Some (a, b) \<Rightarrow> Some (legalMoves (GetLayout kl) (GetInvalidKey kl) a b)))\<rparr>"
  have ctor: "Keyboard_ctor len vowels kl Knight = Inr K"
    unfolding K_def by (rule Keyboard_ctor_Knight[OF rect len])
  have "keyMoves K (labelAt (GetLayout kl) (fst p) (snd p))
          = Some (legalMoves (GetLayout kl) (GetInvalidKey kl) (fst p) (snd p))"
    if v: "validCell kl p" for p
  proof -
    from v have "validCell kl (fst p, snd p)" by simp
    from firstCell_unique[OF rect dist this] v show ?thesis
      by (simp add: K_def validCell_def split: prod.split)
  qed
  then have "exactTable K"
    using rect by (simp add: exactTable_def K_def)
  with ctor that show ?thesis by (simp add: K_def)
qed

lemma generate_exact:
  assumes ex: "exactTable K" and len: "1 \<le> sequenceLength K"
  shows "\<exists>sequences. GenerateSequences K = Some (Inr sequences)
           \<and> numSequences sequences = totalWalks (keyboardLayout K) (sequenceLength K) (maxVowelCount K)"
proof -
  from ex have rect: "rectangular (GetLayout (keyboardLayout K))" by (simp add: exactTable_def)
  note st = starts_exact[OF ex, of "rowMajor (GetRows (keyboardLayout K)) (GetCols (keyboardLayout K))"]
  have ib: "\<And>i j. (i, j) \<in> set (rowMajor (GetRows (keyboardLayout K)) (GetCols (keyboardLayout K)))
      \<Longrightarrow> inBounds (GetLayout (keyboardLayout K)) i j"
    by (simp add: rowMajor_inBounds[OF rect])
  have ok: "generateOk K" unfolding generateOk_def by (rule st(1)[OF ib])
  have cnt: "generateCount K = totalWalks (keyboardLayout K) (sequenceLength K) (maxVowelCount K)"
    unfolding generateCount_def totalWalks_def startCells_def by (rule st(2)[OF ib])
  from GenerateSequences_result[OF len] ok cnt show ?thesis by simp
qed

lemma aggregateCount_distinct:
  assumes rect: "rectangular (GetLayout kl)" and dist: "distinctLabels kl" and len: "1 \<le> len"
  shows "aggregateCount len vowels kl Knight = Some (Inr (totalWalks kl len vowels))"
proof -
  from Keyboard_ctor_exact[OF rect dist len, of vowels] obtain K
    where K: "Keyboard_ctor len vowels kl Knight = Inr K" "exactTable K"
      "sequenceLength K = len" "maxVowelCount K = vowels" "keyboardLayout K = kl"
    by blast
  from generate_exact[OF K(2)] len K(3,4,5) obtain sequences
    where "GenerateSequences K = Some (Inr sequences)" "numSequences sequences = totalWalks kl len vowels"
    by auto
  then show ?thesis by (simp add: aggregateCount_def K(1))
qed

subsection \<open>Sequences of length one\<close>

lemma starts_length_one:
  assumes rect: "rectangular (GetLayout (keyboardLayout K))" and one: "sequenceLength K = 1"
    and cells: "\<And>i j. (i, j) \<in> set cells \<Longrightarrow> inBounds (GetLayout (keyboardLayout K)) i j"
  shows "startsOk K cells \<and> startsCount K cells =
      length (filter (\<lambda>p. vowelValue (labelAt (GetLayout (keyboardLayout K)) (fst p) (snd p)) \<le> maxVowelCount K)
                (filter (validCell (keyboardLayout K)) cells))"
  using cells
proof (induction cells)
  case Nil
  show ?case by simp
next
  case (Cons cell cells)
  let ?kl = "keyboardLayout K"
  obtain i j where cell: "cell = (i, j)" by (cases cell)
  have ib: "inBounds (GetLayout ?kl) i j" using Cons.prems[of i j] by (simp add: cell)
  note rd = subscript2_inBounds[OF rect ib]
  have IH: "startsOk K cells \<and> startsCount K cells =
      length (filter (\<lambda>p. vowelValue (labelAt (GetLayout ?kl) (fst p) (snd p)) \<le> maxVowelCount K)
                (filter (validCell ?kl) cells))"
    by (rule Cons.IH) (use Cons.prems in simp)
  show ?case
  proof (cases "labelAt (GetLayout ?kl) i j = GetInvalidKey ?kl")
    case True
    then have "\<not> validCell ?kl (i, j)" by (simp add: validCell_def)
    with True IH show ?thesis by (simp add: cell rd)
  next
    case False
    with ib have v: "validCell ?kl (i, j)" by (simp add: validCell_def)
    from False v IH show ?thesis
      by (simp add: cell rd one vowelValue_def)
  qed
qed

lemma aggregateCount_length_one:
  assumes rect: "rectangular (GetLayout kl)"
  shows "aggregateCount 1 vowels kl Knight =
     Some (Inr (length (filter (\<lambda>p. vowelValue (labelAt (GetLayout kl) (fst p) (snd p)) \<le> vowels)
                          (startCells kl))))"
proof -
  define K where "K = \<lparr>sequenceLength = 1, maxVowelCount = vowels, keyboardLayout = kl, chessPiecePtr = Knight,
          keyMoves = (\<lambda>key. if key = GetInvalidKey kl then None
                             else (case firstCell kl key of
                                     None \<Rightarrow> None
                                   | Some (a, b) \<Rightarrow> Some (legalMoves (GetLayout kl) (GetInvalidKey kl) a b)))\<rparr>"
  have ctor: "Keyboard_ctor 1 vowels kl Knight = Inr K"
    unfolding K_def by (rule Keyboard_ctor_Knight[OF rect]) simp
  have f: "keyboardLayout K = kl" "sequenceLength K = 1" "maxVowelCount K = vowels"
    by (simp_all add: K_def)
  have ib: "\<And>i j. (i, j) \<in> set (rowMajor (GetRows kl) (GetCols kl)) \<Longrightarrow> inBounds (GetLayout (keyboardLayout K)) i j"
    by (simp add: rowMajor_inBounds[OF rect] f)
  from starts_length_one[of K "rowMajor (GetRows kl) (GetCols kl)", OF _ f(2) ib] rect
  have ok: "generateOk K"
    and cnt: "generateCount K = length (filter (\<lambda>p. vowelValue (labelAt (GetLayout kl) (fst p) (snd p)) \<le> vowels)
                          (startCells kl))"
    by (simp_all add: generateOk_def generateCount_def f startCells_def)
  show ?thesis
    unfolding aggregateCount_Inr_iff[OF ctor] using ok cnt by simp
qed

text \<open>
  Claim C4, as the code has it. On every grid, with a sequence length of 1 the aggregate
  count is the number of valid cells whose label holds no more vowels than the limit: all
  valid cells when the limit is at least 1, and the valid cells whose label is not a vowel
  when the limit is 0.
\<close>

theorem count_for_length_one:
  assumes "rectangular (GetLayout kl)"
  shows "(1 \<le> vowels \<longrightarrow> aggregateCount 1 vowels kl Knight = Some (Inr (length (startCells kl))))
    \<and> aggregateCount 1 0 kl Knight =
        Some (Inr (length (filter (\<lambda>p. \<not> IsVowel (labelAt (GetLayout kl) (fst p) (snd p))) (startCells kl))))"
proof (intro conjI impI)
  assume v: "1 \<le> vowels"
  have "filter (\<lambda>p. vowelValue (labelAt (GetLayout kl) (fst p) (snd p)) \<le> vowels) (startCells kl) = startCells kl"
    using v by (simp add: vowelValue_def)
  with aggregateCount_length_one[OF assms, of vowels]
  show "aggregateCount 1 vowels kl Knight = Some (Inr (length (startCells kl)))"
    by simp
next
  have "(\<lambda>p. vowelValue (labelAt (GetLayout kl) (fst p) (snd p)) \<le> 0)
         = (\<lambda>p. \<not> IsVowel (labelAt (GetLayout kl) (fst p) (snd p)))"
    by (simp add: vowelValue_def fun_eq_iff)
  with aggregateCount_length_one[OF assms, of 0]
  show "aggregateCount 1 0 kl Knight =
        Some (Inr (length (filter (\<lambda>p. \<not> IsVowel (labelAt (GetLayout kl) (fst p) (snd p))) (startCells kl))))"
    by simp
qed

lemma mainKeyboardLayout_rectangular: "rectangular (GetLayout mainKeyboardLayout)"
  by (simp add: mainKeyboardLayout_def rectangular_mainLayout)

theorem count_for_length_one_witness:
  "rectangular (GetLayout mainKeyboardLayout) \<and> (1::nat) \<le> 2
   \<and> aggregateCount 1 2 mainKeyboardLayout Knight = Some (Inr (length (startCells mainKeyboardLayout)))
   \<and> length (startCells mainKeyboardLayout) = 18"
proof -
  have n: "length (startCells mainKeyboardLayout) = 18" by code_simp
  from count_for_length_one[OF mainKeyboardLayout_rectangular, of 2] n
  show ?thesis by (simp add: mainKeyboardLayout_rectangular)
qed

text \<open>
  With a vowel limit of 0 and a sequence length of 1 the keypad of \<^verbatim>\<open>main\<close> yields 14
  sequences, not one for each of its 18 valid cells: the keys A, E, I and O are discarded.
\<close>

theorem length_one_limit_zero:
  "aggregateCount 1 0 mainKeyboardLayout Knight = Some (Inr 14)
   \<and> length (startCells mainKeyboardLayout) = 18"
  by code_simp

subsection \<open>Counting label sequences\<close>

lemma length_pathsFrom: "length (pathsFrom kl cap d v p) = walks kl cap d v p"
proof (induction d arbitrary: v p)
  case 0
  show ?case by simp
next
  case (Suc d)
  show ?case
    by (simp add: length_concat comp_def Suc.IH)
qed

lemma length_allPaths: "length (allPaths kl len cap) = totalWalks kl len cap"
  by (simp add: allPaths_def totalWalks_def length_concat comp_def length_pathsFrom)

lemma labelsOf_simps:
  "labelsOf kl [] = []"
  "labelsOf kl (p # path) = labelAt (GetLayout kl) (fst p) (snd p) # labelsOf kl path"
  by (simp_all add: labelsOf_def)

lemma CountVowels_Cons: "CountVowels (c # seq) = vowelValue c + CountVowels seq"
  by (simp add: vowelValue_def)

lemma target_diff: "target p (fst q - fst p, snd q - snd p) = q"
  by (simp add: target_def)

lemma diff_target: "(fst (target p m) - fst p, snd (target p m) - snd p) = m"
  by (simp add: target_def)

lemma pathsFrom_iff:
  "path \<in> set (pathsFrom kl cap d v p) \<longleftrightarrow>
     length path = Suc d \<and> hd path = p \<and> legalSteps kl path
     \<and> v + CountVowels (labelsOf kl (tl path)) \<le> cap"
proof (induction d arbitrary: v p path)
  case 0
  show ?case
  proof (cases path)
    case Nil
    then show ?thesis by simp
  next
    case (Cons a rest)
    then show ?thesis by (cases rest) (auto simp: labelsOf_simps)
  qed
next
  case (Suc d)
  let ?ms = "legalMoves (GetLayout kl) (GetInvalidKey kl) (fst p) (snd p)"
  let ?vv = "\<lambda>q. vowelValue (labelAt (GetLayout kl) (fst q) (snd q))"
  show ?case
  proof
    assume "path \<in> set (pathsFrom kl cap (Suc d) v p)"
    then obtain m rest where m: "m \<in> set ?ms" and path: "path = p # rest"
      and rest: "rest \<in> set (pathsFrom kl cap d (v + ?vv (target p m)) (target p m))"
      by (auto split: if_splits)
    from rest[unfolded Suc.IH] have r: "length rest = Suc d" "hd rest = target p m" "legalSteps kl rest"
      "v + ?vv (target p m) + CountVowels (labelsOf kl (tl rest)) \<le> cap"
      by simp_all
    from r(1) obtain q rest' where rq: "rest = q # rest'" by (cases rest) auto
    with r(2) have q: "q = target p m" by simp
    have "legalSteps kl path"
      using r(3) m by (simp add: path rq q diff_target)
    moreover have "v + CountVowels (labelsOf kl (tl path)) \<le> cap"
      using r(4) by (simp add: path rq q labelsOf_simps vowelValue_def)
    ultimately show "length path = Suc (Suc d) \<and> hd path = p \<and> legalSteps kl path
        \<and> v + CountVowels (labelsOf kl (tl path)) \<le> cap"
      using r(1) by (simp add: path)
  next
    assume a: "length path = Suc (Suc d) \<and> hd path = p \<and> legalSteps kl path
        \<and> v + CountVowels (labelsOf kl (tl path)) \<le> cap"
    then obtain q rest' where path: "path = p # q # rest'"
      by (cases path; cases "tl path") auto
    let ?m = "(fst q - fst p, snd q - snd p)"
    from a have m: "?m \<in> set ?ms" and ls: "legalSteps kl (q # rest')"
      and cv: "v + ?vv q + CountVowels (labelsOf kl rest') \<le> cap"
      and len: "length (q # rest') = Suc d"
      by (simp_all add: path labelsOf_simps vowelValue_def)
    have "q # rest' \<in> set (pathsFrom kl cap d (v + ?vv (target p ?m)) (target p ?m))"
      unfolding Suc.IH target_diff using ls cv len by simp
    moreover from cv have "\<not> v > cap" by simp
    ultimately show "path \<in> set (pathsFrom kl cap (Suc d) v p)"
      using m unfolding path by (simp del: legalSteps.simps) blast
  qed
qed

lemma distinct_concat_map:
  assumes "distinct xs"
    and "\<And>x. x \<in> set xs \<Longrightarrow> distinct (f x)"
    and "\<And>x y. x \<in> set xs \<Longrightarrow> y \<in> set xs \<Longrightarrow> x \<noteq> y \<Longrightarrow> set (f x) \<inter> set (f y) = {}"
  shows "distinct (concat (map f xs))"
  using assms
proof (induction xs)
  case Nil
  show ?case by simp
next
  case (Cons x xs)
  have "distinct (concat (map f xs))"
    by (rule Cons.IH) (use Cons.prems in auto)
  moreover have "distinct (f x)" using Cons.prems(2) by simp
  moreover have "set (f x) \<inter> set (f y) = {}" if "y \<in> set xs" for y
    using Cons.prems(1) Cons.prems(3)[of x y] that by auto
  ultimately show ?case by auto
qed

lemma distinct_legalMoves: "distinct (legalMoves layout invalidKey x y)"
  by (simp add: legalMoves_def Knight_GetMoves_def)

lemma target_inj: "target p m = target p m' \<Longrightarrow> m = m'"
  by (cases m; cases m') (simp add: target_def)

lemma pathsFrom_hd: "path \<in> set (pathsFrom kl cap d v p) \<Longrightarrow> hd path = p"
  by (simp add: pathsFrom_iff)

lemma distinct_pathsFrom: "distinct (pathsFrom kl cap d v p)"
proof (induction d arbitrary: v p)
  case 0
  show ?case by simp
next
  case (Suc d)
  let ?f = "\<lambda>m. pathsFrom kl cap d
                (v + vowelValue (labelAt (GetLayout kl) (fst (target p m)) (snd (target p m)))) (target p m)"
  have "distinct (concat (map ?f (legalMoves (GetLayout kl) (GetInvalidKey kl) (fst p) (snd p))))"
  proof (rule distinct_concat_map)
    show "distinct (legalMoves (GetLayout kl) (GetInvalidKey kl) (fst p) (snd p))"
      by (rule distinct_legalMoves)
    show "distinct (?f m)" for m by (rule Suc.IH)
    show "set (?f m) \<inter> set (?f m') = {}" if "m \<noteq> m'" for m m'
    proof (rule ccontr)
      assume "set (?f m) \<inter> set (?f m') \<noteq> {}"
      then obtain path where "path \<in> set (?f m)" "path \<in> set (?f m')" by blast
      then have "target p m = target p m'" by (auto dest!: pathsFrom_hd)
      with that show False by (auto dest: target_inj)
    qed
  qed
  then show ?case by (simp add: distinct_map)
qed

lemma distinct_rowMajor: "distinct (rowMajor ROWS COLS)"
  by (simp add: rowMajor_def distinct_product)

lemma distinct_allPaths: "distinct (allPaths kl len cap)"
  unfolding allPaths_def
proof (rule distinct_concat_map)
  show "distinct (startCells kl)"
    by (simp add: startCells_def distinct_rowMajor)
  show "distinct (pathsFrom kl cap (len - 1) (vowelValue (labelAt (GetLayout kl) (fst p) (snd p))) p)" for p
    by (rule distinct_pathsFrom)
  show "set (pathsFrom kl cap (len - 1) (vowelValue (labelAt (GetLayout kl) (fst p) (snd p))) p)
          \<inter> set (pathsFrom kl cap (len - 1) (vowelValue (labelAt (GetLayout kl) (fst q) (snd q))) q) = {}"
    if "p \<noteq> q" for p q
    using that by (auto dest!: pathsFrom_hd)
qed

lemma startCells_iff:
  assumes "rectangular (GetLayout kl)"
  shows "p \<in> set (startCells kl) \<longleftrightarrow> validCell kl p"
proof -
  have "(fst p, snd p) \<in> set (rowMajor (GetRows kl) (GetCols kl)) \<longleftrightarrow> inBounds (GetLayout kl) (fst p) (snd p)"
    by (rule rowMajor_inBounds[OF assms])
  then show ?thesis by (auto simp: startCells_def validCell_def)
qed

lemma set_allPaths:
  assumes rect: "rectangular (GetLayout kl)" and len: "1 \<le> len"
  shows "set (allPaths kl len cap) =
     {path. length path = len \<and> path \<noteq> [] \<and> validCell kl (hd path) \<and> legalSteps kl path
            \<and> CountVowels (labelsOf kl path) \<le> cap}"
proof -
  have cv: "vowelValue (labelAt (GetLayout kl) (fst (hd path)) (snd (hd path))) + CountVowels (labelsOf kl (tl path))
             = CountVowels (labelsOf kl path)" if "path \<noteq> []" for path
    using that by (cases path) (simp_all add: labelsOf_simps vowelValue_def)
  have sl: "Suc (len - 1) = len" using len by simp
  show ?thesis
  proof (intro set_eqI iffI)
    fix path assume "path \<in> set (allPaths kl len cap)"
    then obtain p where p: "p \<in> set (startCells kl)"
      and m: "path \<in> set (pathsFrom kl cap (len - 1) (vowelValue (labelAt (GetLayout kl) (fst p) (snd p))) p)"
      by (auto simp: allPaths_def)
    from m[unfolded pathsFrom_iff sl] have f: "length path = len" "hd path = p" "legalSteps kl path"
      "vowelValue (labelAt (GetLayout kl) (fst p) (snd p)) + CountVowels (labelsOf kl (tl path)) \<le> cap"
      by simp_all
    from f(1) len have ne: "path \<noteq> []" by auto
    from p have "validCell kl p" by (simp add: startCells_iff[OF rect])
    with f ne cv[OF ne] show "path \<in> {path. length path = len \<and> path \<noteq> [] \<and> validCell kl (hd path)
        \<and> legalSteps kl path \<and> CountVowels (labelsOf kl path) \<le> cap}"
      by simp
  next
    fix path assume "path \<in> {path. length path = len \<and> path \<noteq> [] \<and> validCell kl (hd path)
        \<and> legalSteps kl path \<and> CountVowels (labelsOf kl path) \<le> cap}"
    then have f: "length path = len" "path \<noteq> []" "validCell kl (hd path)" "legalSteps kl path"
      "CountVowels (labelsOf kl path) \<le> cap"
      by simp_all
    have "hd path \<in> set (startCells kl)" using f(3) by (simp add: startCells_iff[OF rect])
    moreover have "path \<in> set (pathsFrom kl cap (len - 1)
        (vowelValue (labelAt (GetLayout kl) (fst (hd path)) (snd (hd path)))) (hd path))"
      unfolding pathsFrom_iff sl using f cv[OF f(2)] by simp
    ultimately show "path \<in> set (allPaths kl len cap)"
      unfolding allPaths_def by auto
  qed
qed

lemma legalSteps_valid:
  "validCell kl p \<Longrightarrow> legalSteps kl (p # path) \<Longrightarrow> \<forall>c \<in> set (p # path). validCell kl c"
proof (induction path arbitrary: p)
  case Nil
  then show ?case by simp
next
  case (Cons q path)
  from Cons.prems(2) have m: "(fst q - fst p, snd q - snd p) \<in> set (legalMoves (GetLayout kl) (GetInvalidKey kl) (fst p) (snd p))"
    and ls: "legalSteps kl (q # path)" by simp_all
  from legalMoves_valid[OF m] have "validCell kl q" by (simp add: target_def)
  from Cons.IH[OF this ls] Cons.prems(1) show ?case by simp
qed

lemma stepsInTable_exact:
  assumes ex: "exactTable K"
  shows "validCell (keyboardLayout K) p \<Longrightarrow>
    stepsInTable K (p # path) = legalSteps (keyboardLayout K) (p # path)"
proof (induction path arbitrary: p)
  case Nil
  show ?case by simp
next
  case (Cons q path)
  let ?kl = "keyboardLayout K"
  let ?ms = "legalMoves (GetLayout ?kl) (GetInvalidKey ?kl) (fst p) (snd p)"
  from ex Cons.prems have km: "keyMoves K (labelAt (GetLayout ?kl) (fst p) (snd p)) = Some ?ms"
    by (simp add: exactTable_def)
  show ?case
  proof (cases "(fst q - fst p, snd q - snd p) \<in> set ?ms")
    case True
    from legalMoves_valid[OF True] have "validCell ?kl q" by (simp add: target_def)
    from Cons.IH[OF this] True km show ?thesis by simp
  next
    case False
    with km show ?thesis by simp
  qed
qed

lemma CountVowels_append: "CountVowels (a @ b) = CountVowels a + CountVowels b"
  by (induction a) simp_all

lemma prefix_vowels:
  "(\<forall>n \<le> length w. CountVowels (take n w) \<le> cap) \<longleftrightarrow> CountVowels w \<le> cap"
proof
  assume "\<forall>n \<le> length w. CountVowels (take n w) \<le> cap"
  from this[rule_format, of "length w"] show "CountVowels w \<le> cap" by simp
next
  assume a: "CountVowels w \<le> cap"
  show "\<forall>n \<le> length w. CountVowels (take n w) \<le> cap"
  proof (intro allI impI)
    fix n
    have "CountVowels (take n w) + CountVowels (drop n w) = CountVowels w"
      by (simp add: CountVowels_append[symmetric])
    with a show "CountVowels (take n w) \<le> cap" by linarith
  qed
qed

lemma label_inj:
  assumes rect: "rectangular (GetLayout kl)" and dist: "distinctLabels kl"
    and "validCell kl p" "validCell kl q"
    and eq: "labelAt (GetLayout kl) (fst p) (snd p) = labelAt (GetLayout kl) (fst q) (snd q)"
  shows "p = q"
proof -
  from assms(3) have "validCell kl (fst p, snd p)" by simp
  from firstCell_unique[OF rect dist this]
  have 1: "firstCell kl (labelAt (GetLayout kl) (fst p) (snd p)) = Some p" by simp
  from assms(4) have "validCell kl (fst q, snd q)" by simp
  from firstCell_unique[OF rect dist this]
  have 2: "firstCell kl (labelAt (GetLayout kl) (fst q) (snd q)) = Some q" by simp
  from 1 have "firstCell kl (labelAt (GetLayout kl) (fst q) (snd q)) = Some p"
    by (simp only: eq)
  with 2 show ?thesis by simp
qed

lemma labelsOf_inj:
  assumes rect: "rectangular (GetLayout kl)" and dist: "distinctLabels kl"
  shows "inj_on (labelsOf kl) {path. \<forall>c \<in> set path. validCell kl c}"
proof -
  have "inj_on (\<lambda>p. labelAt (GetLayout kl) (fst p) (snd p)) {c. validCell kl c}"
    by (rule inj_onI) (use label_inj[OF rect dist] in simp)
  then have "inj_on (map (\<lambda>p. labelAt (GetLayout kl) (fst p) (snd p))) (lists {c. validCell kl c})"
    by (rule inj_on_map_lists)
  moreover have "lists {c. validCell kl c} = {path. \<forall>c \<in> set path. validCell kl c}"
    by (auto simp: lists_eq_set)
  moreover have "labelsOf kl = map (\<lambda>p. labelAt (GetLayout kl) (fst p) (snd p))"
    by (simp add: labelsOf_def fun_eq_iff)
  ultimately show ?thesis by simp
qed

lemma validSequences_allPaths:
  assumes ex: "exactTable K" and dist: "distinctLabels (keyboardLayout K)" and len: "1 \<le> sequenceLength K"
  shows "validSequences K
           = labelsOf (keyboardLayout K) ` set (allPaths (keyboardLayout K) (sequenceLength K) (maxVowelCount K))"
proof -
  let ?kl = "keyboardLayout K"
  from ex have rect: "rectangular (GetLayout ?kl)" by (simp add: exactTable_def)
  have st: "stepsInTable K path = legalSteps ?kl path" if "path \<noteq> []" "validCell ?kl (hd path)" for path
    using that stepsInTable_exact[OF ex, of "hd path" "tl path"] by simp
  have "{path. length path = sequenceLength K \<and> path \<noteq> [] \<and> validCell ?kl (hd path)
          \<and> stepsInTable K path
          \<and> (\<forall>n \<le> length path. CountVowels (take n (labelsOf ?kl path)) \<le> maxVowelCount K)}
      = set (allPaths ?kl (sequenceLength K) (maxVowelCount K))"
    unfolding set_allPaths[OF rect len]
  proof (intro Collect_cong)
    fix path
    have "length (labelsOf ?kl path) = length path" by (simp add: labelsOf_def)
    then have "(\<forall>n \<le> length path. CountVowels (take n (labelsOf ?kl path)) \<le> maxVowelCount K)
        \<longleftrightarrow> CountVowels (labelsOf ?kl path) \<le> maxVowelCount K"
      using prefix_vowels[of "labelsOf ?kl path" "maxVowelCount K"] by simp
    then show "(length path = sequenceLength K \<and> path \<noteq> [] \<and> validCell ?kl (hd path)
          \<and> stepsInTable K path
          \<and> (\<forall>n \<le> length path. CountVowels (take n (labelsOf ?kl path)) \<le> maxVowelCount K))
      \<longleftrightarrow> (length path = sequenceLength K \<and> path \<noteq> [] \<and> validCell ?kl (hd path)
          \<and> legalSteps ?kl path \<and> CountVowels (labelsOf ?kl path) \<le> maxVowelCount K)"
      using st[of path] by blast
  qed
  then show ?thesis
    unfolding validSequences_def by blast
qed

lemma card_validSequences:
  assumes ex: "exactTable K" and dist: "distinctLabels (keyboardLayout K)" and len: "1 \<le> sequenceLength K"
  shows "card (validSequences K) = totalWalks (keyboardLayout K) (sequenceLength K) (maxVowelCount K)"
proof -
  let ?kl = "keyboardLayout K"
  let ?all = "allPaths ?kl (sequenceLength K) (maxVowelCount K)"
  from ex have rect: "rectangular (GetLayout ?kl)" by (simp add: exactTable_def)
  have valid: "set ?all \<subseteq> {path. \<forall>c \<in> set path. validCell ?kl c}"
  proof
    fix path assume "path \<in> set ?all"
    then have "path \<noteq> []" "validCell ?kl (hd path)" "legalSteps ?kl path"
      by (simp_all add: set_allPaths[OF rect len])
    with legalSteps_valid[of ?kl "hd path" "tl path"]
    show "path \<in> {path. \<forall>c \<in> set path. validCell ?kl c}" by simp
  qed
  have "inj_on (labelsOf ?kl) (set ?all)"
    by (rule inj_on_subset[OF labelsOf_inj[OF rect dist] valid])
  then have "card (labelsOf ?kl ` set ?all) = card (set ?all)"
    by (rule card_image)
  also have "\<dots> = length ?all"
    by (rule distinct_card[OF distinct_allPaths])
  also have "\<dots> = totalWalks ?kl (sequenceLength K) (maxVowelCount K)"
    by (rule length_allPaths)
  finally show ?thesis
    unfolding validSequences_allPaths[OF ex dist len] .
qed

text \<open>
  Claim C2, for layouts whose valid cells carry distinct labels. On every such grid, for
  every sequence length of at least 1 and every vowel limit, the keyboard is constructed and
  the aggregate count is the number of label sequences of the target length that start at a
  valid cell, take each step by an offset that the move table lists for the label of the
  current cell, and have no prefix with more vowels than the limit. For every keyboard, the
  loop body removes an entry that exceeds the vowel limit and adds nothing to the queue or to
  the sequences found.
\<close>

theorem count_is_number_of_sequences:
  assumes "rectangular (GetLayout kl)" "distinctLabels kl" "1 \<le> len"
  shows "(\<exists>K. Keyboard_ctor len vowels kl Knight = Inr K
            \<and> aggregateCount len vowels kl Knight = Some (Inr (card (validSequences K))))
    \<and> (\<forall>K' start seq pos rest sequences. CountVowels seq > maxVowelCount K' \<longrightarrow>
          loopBody K' start (seq, pos) rest sequences = Inr (rest, sequences))"
proof (intro conjI allI impI)
  from Keyboard_ctor_exact[OF assms, of vowels] obtain K
    where K: "Keyboard_ctor len vowels kl Knight = Inr K" "exactTable K"
      "sequenceLength K = len" "maxVowelCount K = vowels" "keyboardLayout K = kl"
    by blast
  have "card (validSequences K) = totalWalks kl len vowels"
    using card_validSequences[OF K(2)] assms(2,3) K(3,4,5) by simp
  with aggregateCount_distinct[OF assms, of vowels] K(1)
  show "\<exists>K. Keyboard_ctor len vowels kl Knight = Inr K
            \<and> aggregateCount len vowels kl Knight = Some (Inr (card (validSequences K)))"
    by auto
next
  fix K' :: Keyboard and start seq pos rest sequences
  assume "CountVowels seq > maxVowelCount K'"
  then show "loopBody K' start (seq, pos) rest sequences = Inr (rest, sequences)"
    by (simp add: loopBody_cases)
qed

lemma smallLayout_facts:
  "rectangular (GetLayout smallLayout)" "distinctLabels smallLayout"
  by code_simp+

theorem count_is_number_of_sequences_witness:
  "rectangular (GetLayout smallLayout) \<and> distinctLabels smallLayout \<and> (1::nat) \<le> 3
   \<and> (\<exists>K. Keyboard_ctor 3 1 smallLayout Knight = Inr K
         \<and> aggregateCount 3 1 smallLayout Knight = Some (Inr (card (validSequences K)))
         \<and> card (validSequences K) = 3)"
proof -
  have len: "(1::nat) \<le> 3" by simp
  from count_is_number_of_sequences[OF smallLayout_facts len, of 1]
  obtain K where K: "Keyboard_ctor 3 1 smallLayout Knight = Inr K"
    "aggregateCount 3 1 smallLayout Knight = Some (Inr (card (validSequences K)))"
    by blast
  from K(2)[unfolded smallLayout_counts] have "card (validSequences K) = 3"
    by simp
  with K smallLayout_facts show ?thesis by auto
qed

text \<open>
  On a layout with a repeated label the enumeration returns no count at all: the second key
  \<open>X\<close> moves by the offsets of the first one, lands on the invalid key, and the lookup of that
  key in the move table throws.
\<close>

theorem repeated_label_no_count:
  "aggregateCount 3 2 dupLayout Knight = Some (Inl out_of_range)"
  by code_simp

lemma lookup_exact:
  assumes "exactTable K" "validCell (keyboardLayout K) p"
  shows "GetValidMovesForAKey K (labelAt (GetLayout (keyboardLayout K)) (fst p) (snd p))
     = Inr (legalMoves (GetLayout (keyboardLayout K)) (GetInvalidKey (keyboardLayout K)) (fst p) (snd p))"
  using assms by (simp add: exactTable_def GetValidMovesForAKey_def)

lemma reachableQueue_valid:
  assumes ex: "exactTable K"
  shows "reachableQueue K q \<Longrightarrow> list_all (\<lambda>entry. validCell (keyboardLayout K) (snd entry)) q"
proof (induction rule: reachableQueue.induct)
  case (initial i j key)
  let ?kl = "keyboardLayout K"
  from ex have rect: "rectangular (GetLayout ?kl)" by (simp add: exactTable_def)
  from initial(1) have ib: "inBounds (GetLayout ?kl) i j" by (simp add: rowMajor_inBounds[OF rect])
  from initial(2) have "key = labelAt (GetLayout ?kl) i j"
    by (simp add: subscript2_inBounds[OF rect ib])
  with initial(3) ib show ?case by (simp add: validCell_def)
next
  case (step front rest start sequences q' sequences')
  let ?kl = "keyboardLayout K"
  obtain seq p where front: "front = (seq, p)" by (cases front)
  from step.IH have vp: "validCell ?kl p" and vr: "list_all (\<lambda>entry. validCell ?kl (snd entry)) rest"
    by (simp_all add: front)
  have "list_all (\<lambda>entry. validCell ?kl (snd entry))
          (map (child ?kl (seq, p)) (legalMoves (GetLayout ?kl) (GetInvalidKey ?kl) (fst p) (snd p)))"
    unfolding list_all_iff using legalMoves_valid[of _ ?kl "fst p" "snd p"]
    by (auto simp: child_facts)
  with step.hyps(2) vr show ?case
    unfolding front loopBody_cases expand_exact[OF ex vp]
    by (auto split: if_splits)
qed

text \<open>
  Claim C5, for layouts whose valid cells carry distinct labels. On every such grid, with
  the move table that the constructor builds from it, \<^verbatim>\<open>GenerateSequences\<close> returns its
  sequences and raises nothing; every entry of every queue of the search ends at a valid
  cell, and the move table has an entry for the label of that cell.
\<close>

theorem enumeration_raises_nothing:
  assumes "rectangular (GetLayout kl)" "distinctLabels kl" "1 \<le> len"
  shows "\<exists>K. Keyboard_ctor len vowels kl Knight = Inr K
     \<and> (\<exists>sequences. GenerateSequences K = Some (Inr sequences))
     \<and> (\<forall>q. reachableQueue K q \<longrightarrow>
          list_all (\<lambda>entry. validCell kl (snd entry)
                      \<and> (\<exists>moves. GetValidMovesForAKey K
                                     (labelAt (GetLayout kl) (fst (snd entry)) (snd (snd entry))) = Inr moves)) q)"
proof -
  from Keyboard_ctor_exact[OF assms, of vowels] obtain K
    where K: "Keyboard_ctor len vowels kl Knight = Inr K" "exactTable K"
      "sequenceLength K = len" "maxVowelCount K = vowels" "keyboardLayout K = kl"
    by blast
  from generate_exact[OF K(2)] assms(3) K(3)
  have g: "\<exists>sequences. GenerateSequences K = Some (Inr sequences)" by auto
  have "list_all (\<lambda>entry. validCell kl (snd entry)
                      \<and> (\<exists>moves. GetValidMovesForAKey K
                                     (labelAt (GetLayout kl) (fst (snd entry)) (snd (snd entry))) = Inr moves)) q"
    if "reachableQueue K q" for q
    using reachableQueue_valid[OF K(2) that] lookup_exact[OF K(2)]
    unfolding list_all_iff K(5) by blast
  with K(1) g show ?thesis by blast
qed

theorem enumeration_raises_nothing_witness:
  "rectangular (GetLayout smallLayout) \<and> distinctLabels smallLayout \<and> (1::nat) \<le> 3
   \<and> (\<exists>K. Keyboard_ctor 3 1 smallLayout Knight = Inr K
         \<and> (\<exists>sequences. GenerateSequences K = Some (Inr sequences)))"
proof -
  have len: "(1::nat) \<le> 3" by simp
  from enumeration_raises_nothing[OF smallLayout_facts len, of 1]
  obtain K where "Keyboard_ctor 3 1 smallLayout Knight = Inr K"
    "\<exists>sequences. GenerateSequences K = Some (Inr sequences)"
    by blast
  with smallLayout_facts len show ?thesis by blast
qed

lemma dupKeyboard_ctor: "Keyboard_ctor 3 2 dupLayout Knight = Inr dupKeyboard"
  by (simp add: Keyboard_ctor_def SetValidMovesForAllKeys_def rowMajor_def GetRows_def GetCols_def
      dupLayout_def dupKeyboard_def Knight_def Knight_GetMoves_def Knight_IsValidMove_def
      subscript_def subscript2_def map_insert_def Let_def upto.simps)

text \<open>
  On the layout with a repeated label the table is the one the constructor builds from the
  layout, yet the search from the second key \<open>X\<close> enqueues an entry that ends on the invalid
  key, the move table has no entry for that key, and \<^verbatim>\<open>GenerateSequences\<close> ends with
  \<^verbatim>\<open>std::out_of_range\<close>.
\<close>

theorem repeated_label_raises:
  "Keyboard_ctor 3 2 dupLayout Knight = Inr dupKeyboard
   \<and> loopBody dupKeyboard (CHR ''X'') (''X'', (0, 1)) [] [] = Inr ([(''X.'', (2, 2))], [])
   \<and> labelAt (GetLayout dupLayout) 2 2 = GetInvalidKey dupLayout
   \<and> GetValidMovesForAKey dupKeyboard (CHR ''.'') = Inl out_of_range
   \<and> GenerateSequences dupKeyboard = Some (Inl out_of_range)"
proof -
  have "loopBody dupKeyboard (CHR ''X'') (''X'', (0, 1)) [] [] = Inr ([(''X.'', (2, 2))], [])"
    by code_simp
  moreover have "labelAt (GetLayout dupLayout) 2 2 = GetInvalidKey dupLayout"
    by code_simp
  moreover have "GetValidMovesForAKey dupKeyboard (CHR ''.'') = Inl out_of_range"
    by code_simp
  moreover have "GenerateSequences dupKeyboard = Some (Inl out_of_range)"
    by code_simp
  ultimately show ?thesis using dupKeyboard_ctor by simp
qed

subsection \<open>The keypad of main\<close>

text \<open>
  The valid cells of the keypad, the legal moves from each of them, and which of them carry
  a vowel.
\<close>

lemma main_startCells:
  "startCells mainKeyboardLayout =
     [(0, 0), (0, 1), (0, 2), (0, 3), (0, 4), (1, 0),
      (1, 1), (1, 2), (1, 3), (1, 4), (2, 0), (2, 1),
      (2, 2), (2, 3), (2, 4), (3, 1), (3, 2), (3, 3)]"
  by code_simp

lemma main_legalMoves:
  "legalMoves (GetLayout mainKeyboardLayout) (GetInvalidKey mainKeyboardLayout) 0 0 = [(1, 2), (2, 1)]"
  "legalMoves (GetLayout mainKeyboardLayout) (GetInvalidKey mainKeyboardLayout) 0 1 = [(1, 2), (2, - 1), (2, 1)]"
  "legalMoves (GetLayout mainKeyboardLayout) (GetInvalidKey mainKeyboardLayout) 0 2 = [(1, - 2), (1, 2), (2, - 1), (2, 1)]"
  "legalMoves (GetLayout mainKeyboardLayout) (GetInvalidKey mainKeyboardLayout) 0 3 = [(1, - 2), (2, - 1), (2, 1)]"
  "legalMoves (GetLayout mainKeyboardLayout) (GetInvalidKey mainKeyboardLayout) 0 4 = [(1, - 2), (2, - 1)]"
  "legalMoves (GetLayout mainKeyboardLayout) (GetInvalidKey mainKeyboardLayout) 1 0 = [(- 1, 2), (1, 2), (2, 1)]"
  "legalMoves (GetLayout mainKeyboardLayout) (GetInvalidKey mainKeyboardLayout) 1 1 = [(- 1, 2), (1, 2), (2, 1)]"
  "legalMoves (GetLayout mainKeyboardLayout) (GetInvalidKey mainKeyboardLayout) 1 2 = [(- 1, - 2), (- 1, 2), (1, - 2), (1, 2), (2, - 1), (2, 1)]"
  "legalMoves (GetLayout mainKeyboardLayout) (GetInvalidKey mainKeyboardLayout) 1 3 = [(- 1, - 2), (1, - 2), (2, - 1)]"
  "legalMoves (GetLayout mainKeyboardLayout) (GetInvalidKey mainKeyboardLayout) 1 4 = [(- 1, - 2), (1, - 2), (2, - 1)]"
  "legalMoves (GetLayout mainKeyboardLayout) (GetInvalidKey mainKeyboardLayout) 2 0 = [(- 2, 1), (- 1, 2), (1, 2)]"
  "legalMoves (GetLayout mainKeyboardLayout) (GetInvalidKey mainKeyboardLayout) 2 1 = [(- 2, - 1), (- 2, 1), (- 1, 2), (1, 2)]"
  "legalMoves (GetLayout mainKeyboardLayout) (GetInvalidKey mainKeyboardLayout) 2 2 = [(- 2, - 1), (- 2, 1), (- 1, - 2), (- 1, 2)]"
  "legalMoves (GetLayout mainKeyboardLayout) (GetInvalidKey mainKeyboardLayout) 2 3 = [(- 2, - 1), (- 2, 1), (- 1, - 2), (1, - 2)]"
  "legalMoves (GetLayout mainKeyboardLayout) (GetInvalidKey mainKeyboardLayout) 2 4 = [(- 2, - 1), (- 1, - 2), (1, - 2)]"
  "legalMoves (GetLayout mainKeyboardLayout) (GetInvalidKey mainKeyboardLayout) 3 1 = [(- 2, - 1), (- 2, 1), (- 1, 2)]"
  "legalMoves (GetLayout mainKeyboardLayout) (GetInvalidKey mainKeyboardLayout) 3 2 = [(- 2, - 1), (- 2, 1), (- 1, - 2), (- 1, 2)]"
  "legalMoves (GetLayout mainKeyboardLayout) (GetInvalidKey mainKeyboardLayout) 3 3 = [(- 2, - 1), (- 2, 1), (- 1, - 2)]"
  by code_simp+

lemma main_vowelValue:
  "vowelValue (labelAt (GetLayout mainKeyboardLayout) 0 0) = 1"
  "vowelValue (labelAt (GetLayout mainKeyboardLayout) 0 1) = 0"
  "vowelValue (labelAt (GetLayout mainKeyboardLayout) 0 2) = 0"
  "vowelValue (labelAt (GetLayout mainKeyboardLayout) 0 3) = 0"
  "vowelValue (labelAt (GetLayout mainKeyboardLayout) 0 4) = 1"
  "vowelValue (labelAt (GetLayout mainKeyboardLayout) 1 0) = 0"
  "vowelValue (labelAt (GetLayout mainKeyboardLayout) 1 1) = 0"
  "vowelValue (labelAt (GetLayout mainKeyboardLayout) 1 2) = 0"
  "vowelValue (labelAt (GetLayout mainKeyboardLayout) 1 3) = 1"
  "vowelValue (labelAt (GetLayout mainKeyboardLayout) 1 4) = 0"
  "vowelValue (labelAt (GetLayout mainKeyboardLayout) 2 0) = 0"
  "vowelValue (labelAt (GetLayout mainKeyboardLayout) 2 1) = 0"
  "vowelValue (labelAt (GetLayout mainKeyboardLayout) 2 2) = 0"
  "vowelValue (labelAt (GetLayout mainKeyboardLayout) 2 3) = 0"
  "vowelValue (labelAt (GetLayout mainKeyboardLayout) 2 4) = 1"
  "vowelValue (labelAt (GetLayout mainKeyboardLayout) 3 1) = 0"
  "vowelValue (labelAt (GetLayout mainKeyboardLayout) 3 2) = 0"
  "vowelValue (labelAt (GetLayout mainKeyboardLayout) 3 3) = 0"
  by code_simp+

text \<open>
  The number of continuations from every cell, for every number of vowels within the limit,
  level by level: each level follows from the one before by one unfolding of \<open>walks\<close>.
\<close>

lemma walks_over: "cap < v \<Longrightarrow> walks kl cap d v p = 0"
  by (cases d) simp_all

lemma main_level_0:
  "walks mainKeyboardLayout 2 0 0 (0, 0) = 1" "walks mainKeyboardLayout 2 0 1 (0, 0) = 1" "walks mainKeyboardLayout 2 0 2 (0, 0) = 1"
  "walks mainKeyboardLayout 2 0 0 (0, 1) = 1" "walks mainKeyboardLayout 2 0 1 (0, 1) = 1" "walks mainKeyboardLayout 2 0 2 (0, 1) = 1"
  "walks mainKeyboardLayout 2 0 0 (0, 2) = 1" "walks mainKeyboardLayout 2 0 1 (0, 2) = 1" "walks mainKeyboardLayout 2 0 2 (0, 2) = 1"
  "walks mainKeyboardLayout 2 0 0 (0, 3) = 1" "walks mainKeyboardLayout 2 0 1 (0, 3) = 1" "walks mainKeyboardLayout 2 0 2 (0, 3) = 1"
  "walks mainKeyboardLayout 2 0 0 (0, 4) = 1" "walks mainKeyboardLayout 2 0 1 (0, 4) = 1" "walks mainKeyboardLayout 2 0 2 (0, 4) = 1"
  "walks mainKeyboardLayout 2 0 0 (1, 0) = 1" "walks mainKeyboardLayout 2 0 1 (1, 0) = 1" "walks mainKeyboardLayout 2 0 2 (1, 0) = 1"
  "walks mainKeyboardLayout 2 0 0 (1, 1) = 1" "walks mainKeyboardLayout 2 0 1 (1, 1) = 1" "walks mainKeyboardLayout 2 0 2 (1, 1) = 1"
  "walks mainKeyboardLayout 2 0 0 (1, 2) = 1" "walks mainKeyboardLayout 2 0 1 (1, 2) = 1" "walks mainKeyboardLayout 2 0 2 (1, 2) = 1"
  "walks mainKeyboardLayout 2 0 0 (1, 3) = 1" "walks mainKeyboardLayout 2 0 1 (1, 3) = 1" "walks mainKeyboardLayout 2 0 2 (1, 3) = 1"
  "walks mainKeyboardLayout 2 0 0 (1, 4) = 1" "walks mainKeyboardLayout 2 0 1 (1, 4) = 1" "walks mainKeyboardLayout 2 0 2 (1, 4) = 1"
  "walks mainKeyboardLayout 2 0 0 (2, 0) = 1" "walks mainKeyboardLayout 2 0 1 (2, 0) = 1" "walks mainKeyboardLayout 2 0 2 (2, 0) = 1"
  "walks mainKeyboardLayout 2 0 0 (2, 1) = 1" "walks mainKeyboardLayout 2 0 1 (2, 1) = 1" "walks mainKeyboardLayout 2 0 2 (2, 1) = 1"
  "walks mainKeyboardLayout 2 0 0 (2, 2) = 1" "walks mainKeyboardLayout 2 0 1 (2, 2) = 1" "walks mainKeyboardLayout 2 0 2 (2, 2) = 1"
  "walks mainKeyboardLayout 2 0 0 (2, 3) = 1" "walks mainKeyboardLayout 2 0 1 (2, 3) = 1" "walks mainKeyboardLayout 2 0 2 (2, 3) = 1"
  "walks mainKeyboardLayout 2 0 0 (2, 4) = 1" "walks mainKeyboardLayout 2 0 1 (2, 4) = 1" "walks mainKeyboardLayout 2 0 2 (2, 4) = 1"
  "walks mainKeyboardLayout 2 0 0 (3, 1) = 1" "walks mainKeyboardLayout 2 0 1 (3, 1) = 1" "walks mainKeyboardLayout 2 0 2 (3, 1) = 1"
  "walks mainKeyboardLayout 2 0 0 (3, 2) = 1" "walks mainKeyboardLayout 2 0 1 (3, 2) = 1" "walks mainKeyboardLayout 2 0 2 (3, 2) = 1"
  "walks mainKeyboardLayout 2 0 0 (3, 3) = 1" "walks mainKeyboardLayout 2 0 1 (3, 3) = 1" "walks mainKeyboardLayout 2 0 2 (3, 3) = 1"
  by simp_all

lemma main_level_1:
  "walks mainKeyboardLayout 2 1 0 (0, 0) = 2" "walks mainKeyboardLayout 2 1 1 (0, 0) = 2" "walks mainKeyboardLayout 2 1 2 (0, 0) = 2"
  "walks mainKeyboardLayout 2 1 0 (0, 1) = 3" "walks mainKeyboardLayout 2 1 1 (0, 1) = 3" "walks mainKeyboardLayout 2 1 2 (0, 1) = 2"
  "walks mainKeyboardLayout 2 1 0 (0, 2) = 4" "walks mainKeyboardLayout 2 1 1 (0, 2) = 4" "walks mainKeyboardLayout 2 1 2 (0, 2) = 4"
  "walks mainKeyboardLayout 2 1 0 (0, 3) = 3" "walks mainKeyboardLayout 2 1 1 (0, 3) = 3" "walks mainKeyboardLayout 2 1 2 (0, 3) = 2"
  "walks mainKeyboardLayout 2 1 0 (0, 4) = 2" "walks mainKeyboardLayout 2 1 1 (0, 4) = 2" "walks mainKeyboardLayout 2 1 2 (0, 4) = 2"
  "walks mainKeyboardLayout 2 1 0 (1, 0) = 3" "walks mainKeyboardLayout 2 1 1 (1, 0) = 3" "walks mainKeyboardLayout 2 1 2 (1, 0) = 3"
  "walks mainKeyboardLayout 2 1 0 (1, 1) = 3" "walks mainKeyboardLayout 2 1 1 (1, 1) = 3" "walks mainKeyboardLayout 2 1 2 (1, 1) = 3"
  "walks mainKeyboardLayout 2 1 0 (1, 2) = 6" "walks mainKeyboardLayout 2 1 1 (1, 2) = 6" "walks mainKeyboardLayout 2 1 2 (1, 2) = 3"
  "walks mainKeyboardLayout 2 1 0 (1, 3) = 3" "walks mainKeyboardLayout 2 1 1 (1, 3) = 3" "walks mainKeyboardLayout 2 1 2 (1, 3) = 3"
  "walks mainKeyboardLayout 2 1 0 (1, 4) = 3" "walks mainKeyboardLayout 2 1 1 (1, 4) = 3" "walks mainKeyboardLayout 2 1 2 (1, 4) = 3"
  "walks mainKeyboardLayout 2 1 0 (2, 0) = 3" "walks mainKeyboardLayout 2 1 1 (2, 0) = 3" "walks mainKeyboardLayout 2 1 2 (2, 0) = 3"
  "walks mainKeyboardLayout 2 1 0 (2, 1) = 4" "walks mainKeyboardLayout 2 1 1 (2, 1) = 4" "walks mainKeyboardLayout 2 1 2 (2, 1) = 2"
  "walks mainKeyboardLayout 2 1 0 (2, 2) = 4" "walks mainKeyboardLayout 2 1 1 (2, 2) = 4" "walks mainKeyboardLayout 2 1 2 (2, 2) = 4"
  "walks mainKeyboardLayout 2 1 0 (2, 3) = 4" "walks mainKeyboardLayout 2 1 1 (2, 3) = 4" "walks mainKeyboardLayout 2 1 2 (2, 3) = 3"
  "walks mainKeyboardLayout 2 1 0 (2, 4) = 3" "walks mainKeyboardLayout 2 1 1 (2, 4) = 3" "walks mainKeyboardLayout 2 1 2 (2, 4) = 3"
  "walks mainKeyboardLayout 2 1 0 (3, 1) = 3" "walks mainKeyboardLayout 2 1 1 (3, 1) = 3" "walks mainKeyboardLayout 2 1 2 (3, 1) = 3"
  "walks mainKeyboardLayout 2 1 0 (3, 2) = 4" "walks mainKeyboardLayout 2 1 1 (3, 2) = 4" "walks mainKeyboardLayout 2 1 2 (3, 2) = 2"
  "walks mainKeyboardLayout 2 1 0 (3, 3) = 3" "walks mainKeyboardLayout 2 1 1 (3, 3) = 3" "walks mainKeyboardLayout 2 1 2 (3, 3) = 3"
  unfolding walks.simps(2)[of _ _ "0", unfolded One_nat_def[symmetric]]
  by (simp_all add: main_legalMoves main_vowelValue target_def walks_over main_level_0 numeral_2_eq_2[symmetric] del: One_nat_def)

lemma main_level_2:
  "walks mainKeyboardLayout 2 2 0 (0, 0) = 10" "walks mainKeyboardLayout 2 2 1 (0, 0) = 10" "walks mainKeyboardLayout 2 2 2 (0, 0) = 5"
  "walks mainKeyboardLayout 2 2 0 (0, 1) = 10" "walks mainKeyboardLayout 2 2 1 (0, 1) = 10" "walks mainKeyboardLayout 2 2 2 (0, 1) = 7"
  "walks mainKeyboardLayout 2 2 0 (0, 2) = 14" "walks mainKeyboardLayout 2 2 1 (0, 2) = 14" "walks mainKeyboardLayout 2 2 2 (0, 2) = 11"
  "walks mainKeyboardLayout 2 2 0 (0, 3) = 10" "walks mainKeyboardLayout 2 2 1 (0, 3) = 10" "walks mainKeyboardLayout 2 2 2 (0, 3) = 7"
  "walks mainKeyboardLayout 2 2 0 (0, 4) = 10" "walks mainKeyboardLayout 2 2 1 (0, 4) = 10" "walks mainKeyboardLayout 2 2 2 (0, 4) = 6"
  "walks mainKeyboardLayout 2 2 0 (1, 0) = 11" "walks mainKeyboardLayout 2 2 1 (1, 0) = 11" "walks mainKeyboardLayout 2 2 2 (1, 0) = 11"
  "walks mainKeyboardLayout 2 2 0 (1, 1) = 11" "walks mainKeyboardLayout 2 2 1 (1, 1) = 11" "walks mainKeyboardLayout 2 2 2 (1, 1) = 7"
  "walks mainKeyboardLayout 2 2 0 (1, 2) = 16" "walks mainKeyboardLayout 2 2 1 (1, 2) = 16" "walks mainKeyboardLayout 2 2 2 (1, 2) = 9"
  "walks mainKeyboardLayout 2 2 0 (1, 3) = 11" "walks mainKeyboardLayout 2 2 1 (1, 3) = 11" "walks mainKeyboardLayout 2 2 2 (1, 3) = 6"
  "walks mainKeyboardLayout 2 2 0 (1, 4) = 11" "walks mainKeyboardLayout 2 2 1 (1, 4) = 11" "walks mainKeyboardLayout 2 2 2 (1, 4) = 11"
  "walks mainKeyboardLayout 2 2 0 (2, 0) = 13" "walks mainKeyboardLayout 2 2 1 (2, 0) = 13" "walks mainKeyboardLayout 2 2 2 (2, 0) = 7"
  "walks mainKeyboardLayout 2 2 0 (2, 1) = 12" "walks mainKeyboardLayout 2 2 1 (2, 1) = 12" "walks mainKeyboardLayout 2 2 2 (2, 1) = 7"
  "walks mainKeyboardLayout 2 2 0 (2, 2) = 12" "walks mainKeyboardLayout 2 2 1 (2, 2) = 12" "walks mainKeyboardLayout 2 2 2 (2, 2) = 10"
  "walks mainKeyboardLayout 2 2 0 (2, 3) = 12" "walks mainKeyboardLayout 2 2 1 (2, 3) = 12" "walks mainKeyboardLayout 2 2 2 (2, 3) = 10"
  "walks mainKeyboardLayout 2 2 0 (2, 4) = 13" "walks mainKeyboardLayout 2 2 1 (2, 4) = 13" "walks mainKeyboardLayout 2 2 2 (2, 4) = 7"
  "walks mainKeyboardLayout 2 2 0 (3, 1) = 13" "walks mainKeyboardLayout 2 2 1 (3, 1) = 13" "walks mainKeyboardLayout 2 2 2 (3, 1) = 9"
  "walks mainKeyboardLayout 2 2 0 (3, 2) = 12" "walks mainKeyboardLayout 2 2 1 (3, 2) = 12" "walks mainKeyboardLayout 2 2 2 (3, 2) = 6"
  "walks mainKeyboardLayout 2 2 0 (3, 3) = 13" "walks mainKeyboardLayout 2 2 1 (3, 3) = 13" "walks mainKeyboardLayout 2 2 2 (3, 3) = 8"
  unfolding walks.simps(2)[of _ _ "1", unfolded Suc_1]
  by (simp_all add: main_legalMoves main_vowelValue target_def walks_over main_level_1 numeral_2_eq_2[symmetric] del: One_nat_def)

lemma main_level_3:
  "walks mainKeyboardLayout 2 3 0 (0, 0) = 28" "walks mainKeyboardLayout 2 3 1 (0, 0) = 28" "walks mainKeyboardLayout 2 3 2 (0, 0) = 16"
  "walks mainKeyboardLayout 2 3 0 (0, 1) = 36" "walks mainKeyboardLayout 2 3 1 (0, 1) = 31" "walks mainKeyboardLayout 2 3 2 (0, 1) = 17"
  "walks mainKeyboardLayout 2 3 0 (0, 2) = 46" "walks mainKeyboardLayout 2 3 1 (0, 2) = 46" "walks mainKeyboardLayout 2 3 2 (0, 2) = 39"
  "walks mainKeyboardLayout 2 3 0 (0, 3) = 36" "walks mainKeyboardLayout 2 3 1 (0, 3) = 30" "walks mainKeyboardLayout 2 3 2 (0, 3) = 17"
  "walks mainKeyboardLayout 2 3 0 (0, 4) = 28" "walks mainKeyboardLayout 2 3 1 (0, 4) = 28" "walks mainKeyboardLayout 2 3 2 (0, 4) = 19"
  "walks mainKeyboardLayout 2 3 0 (1, 0) = 39" "walks mainKeyboardLayout 2 3 1 (1, 0) = 39" "walks mainKeyboardLayout 2 3 2 (1, 0) = 30"
  "walks mainKeyboardLayout 2 3 0 (1, 1) = 34" "walks mainKeyboardLayout 2 3 1 (1, 1) = 34" "walks mainKeyboardLayout 2 3 2 (1, 1) = 23"
  "walks mainKeyboardLayout 2 3 0 (1, 2) = 72" "walks mainKeyboardLayout 2 3 1 (1, 2) = 57" "walks mainKeyboardLayout 2 3 2 (1, 2) = 24"
  "walks mainKeyboardLayout 2 3 0 (1, 3) = 34" "walks mainKeyboardLayout 2 3 1 (1, 3) = 34" "walks mainKeyboardLayout 2 3 2 (1, 3) = 20"
  "walks mainKeyboardLayout 2 3 0 (1, 4) = 39" "walks mainKeyboardLayout 2 3 1 (1, 4) = 39" "walks mainKeyboardLayout 2 3 2 (1, 4) = 29"
  "walks mainKeyboardLayout 2 3 0 (2, 0) = 38" "walks mainKeyboardLayout 2 3 1 (2, 0) = 38" "walks mainKeyboardLayout 2 3 2 (2, 0) = 22"
  "walks mainKeyboardLayout 2 3 0 (2, 1) = 48" "walks mainKeyboardLayout 2 3 1 (2, 1) = 38" "walks mainKeyboardLayout 2 3 2 (2, 1) = 19"
  "walks mainKeyboardLayout 2 3 0 (2, 2) = 42" "walks mainKeyboardLayout 2 3 1 (2, 2) = 42" "walks mainKeyboardLayout 2 3 2 (2, 2) = 36"
  "walks mainKeyboardLayout 2 3 0 (2, 3) = 48" "walks mainKeyboardLayout 2 3 1 (2, 3) = 44" "walks mainKeyboardLayout 2 3 2 (2, 3) = 27"
  "walks mainKeyboardLayout 2 3 0 (2, 4) = 38" "walks mainKeyboardLayout 2 3 1 (2, 4) = 38" "walks mainKeyboardLayout 2 3 2 (2, 4) = 22"
  "walks mainKeyboardLayout 2 3 0 (3, 1) = 39" "walks mainKeyboardLayout 2 3 1 (3, 1) = 39" "walks mainKeyboardLayout 2 3 2 (3, 1) = 30"
  "walks mainKeyboardLayout 2 3 0 (3, 2) = 48" "walks mainKeyboardLayout 2 3 1 (3, 2) = 37" "walks mainKeyboardLayout 2 3 2 (3, 2) = 14"
  "walks mainKeyboardLayout 2 3 0 (3, 3) = 39" "walks mainKeyboardLayout 2 3 1 (3, 3) = 39" "walks mainKeyboardLayout 2 3 2 (3, 3) = 27"
  unfolding walks.simps(2)[of _ _ "2", unfolded Suc_numeral add_num_simps]
  by (simp_all add: main_legalMoves main_vowelValue target_def walks_over main_level_2 numeral_2_eq_2[symmetric] del: One_nat_def)

lemma main_level_4:
  "walks mainKeyboardLayout 2 4 0 (0, 0) = 120" "walks mainKeyboardLayout 2 4 1 (0, 0) = 95" "walks mainKeyboardLayout 2 4 2 (0, 0) = 43"
  "walks mainKeyboardLayout 2 4 0 (0, 1) = 114" "walks mainKeyboardLayout 2 4 1 (0, 1) = 100" "walks mainKeyboardLayout 2 4 2 (0, 1) = 58"
  "walks mainKeyboardLayout 2 4 0 (0, 2) = 174" "walks mainKeyboardLayout 2 4 1 (0, 2) = 160" "walks mainKeyboardLayout 2 4 2 (0, 2) = 105"
  "walks mainKeyboardLayout 2 4 0 (0, 3) = 114" "walks mainKeyboardLayout 2 4 1 (0, 3) = 98" "walks mainKeyboardLayout 2 4 2 (0, 3) = 59"
  "walks mainKeyboardLayout 2 4 0 (0, 4) = 120" "walks mainKeyboardLayout 2 4 1 (0, 4) = 101" "walks mainKeyboardLayout 2 4 2 (0, 4) = 51"
  "walks mainKeyboardLayout 2 4 0 (1, 0) = 127" "walks mainKeyboardLayout 2 4 1 (1, 0) = 127" "walks mainKeyboardLayout 2 4 2 (1, 0) = 105"
  "walks mainKeyboardLayout 2 4 0 (1, 1) = 132" "walks mainKeyboardLayout 2 4 1 (1, 1) = 111" "walks mainKeyboardLayout 2 4 2 (1, 1) = 58"
  "walks mainKeyboardLayout 2 4 0 (1, 2) = 210" "walks mainKeyboardLayout 2 4 1 (1, 2) = 173" "walks mainKeyboardLayout 2 4 2 (1, 2) = 79"
  "walks mainKeyboardLayout 2 4 0 (1, 3) = 132" "walks mainKeyboardLayout 2 4 1 (1, 3) = 106" "walks mainKeyboardLayout 2 4 2 (1, 3) = 50"
  "walks mainKeyboardLayout 2 4 0 (1, 4) = 127" "walks mainKeyboardLayout 2 4 1 (1, 4) = 127" "walks mainKeyboardLayout 2 4 2 (1, 4) = 102"
  "walks mainKeyboardLayout 2 4 0 (2, 0) = 156" "walks mainKeyboardLayout 2 4 1 (2, 0) = 125" "walks mainKeyboardLayout 2 4 2 (2, 0) = 55"
  "walks mainKeyboardLayout 2 4 0 (2, 1) = 147" "walks mainKeyboardLayout 2 4 1 (2, 1) = 121" "walks mainKeyboardLayout 2 4 2 (2, 1) = 66"
  "walks mainKeyboardLayout 2 4 0 (2, 2) = 150" "walks mainKeyboardLayout 2 4 1 (2, 2) = 139" "walks mainKeyboardLayout 2 4 2 (2, 2) = 93"
  "walks mainKeyboardLayout 2 4 0 (2, 3) = 147" "walks mainKeyboardLayout 2 4 1 (2, 3) = 138" "walks mainKeyboardLayout 2 4 2 (2, 3) = 92"
  "walks mainKeyboardLayout 2 4 0 (2, 4) = 156" "walks mainKeyboardLayout 2 4 1 (2, 4) = 124" "walks mainKeyboardLayout 2 4 2 (2, 4) = 55"
  "walks mainKeyboardLayout 2 4 0 (3, 1) = 159" "walks mainKeyboardLayout 2 4 1 (3, 1) = 140" "walks mainKeyboardLayout 2 4 2 (3, 1) = 81"
  "walks mainKeyboardLayout 2 4 0 (3, 2) = 144" "walks mainKeyboardLayout 2 4 1 (3, 2) = 114" "walks mainKeyboardLayout 2 4 2 (3, 2) = 45"
  "walks mainKeyboardLayout 2 4 0 (3, 3) = 159" "walks mainKeyboardLayout 2 4 1 (3, 3) = 134" "walks mainKeyboardLayout 2 4 2 (3, 3) = 72"
  unfolding walks.simps(2)[of _ _ "3", unfolded Suc_numeral add_num_simps]
  by (simp_all add: main_legalMoves main_vowelValue target_def walks_over main_level_3 numeral_2_eq_2[symmetric] del: One_nat_def)

lemma main_level_5:
  "walks mainKeyboardLayout 2 5 0 (0, 0) = 357" "walks mainKeyboardLayout 2 5 1 (0, 0) = 294" "walks mainKeyboardLayout 2 5 2 (0, 0) = 145"
  "walks mainKeyboardLayout 2 5 0 (0, 1) = 412" "walks mainKeyboardLayout 2 5 1 (0, 1) = 314" "walks mainKeyboardLayout 2 5 2 (0, 1) = 148"
  "walks mainKeyboardLayout 2 5 0 (0, 2) = 548" "walks mainKeyboardLayout 2 5 1 (0, 2) = 513" "walks mainKeyboardLayout 2 5 2 (0, 2) = 365"
  "walks mainKeyboardLayout 2 5 0 (0, 3) = 406" "walks mainKeyboardLayout 2 5 1 (0, 3) = 305" "walks mainKeyboardLayout 2 5 2 (0, 3) = 151"
  "walks mainKeyboardLayout 2 5 0 (0, 4) = 357" "walks mainKeyboardLayout 2 5 1 (0, 4) = 311" "walks mainKeyboardLayout 2 5 2 (0, 4) = 171"
  "walks mainKeyboardLayout 2 5 0 (1, 0) = 483" "walks mainKeyboardLayout 2 5 1 (1, 0) = 439" "walks mainKeyboardLayout 2 5 2 (1, 0) = 279"
  "walks mainKeyboardLayout 2 5 0 (1, 1) = 405" "walks mainKeyboardLayout 2 5 1 (1, 1) = 350" "walks mainKeyboardLayout 2 5 2 (1, 1) = 196"
  "walks mainKeyboardLayout 2 5 0 (1, 2) = 794" "walks mainKeyboardLayout 2 5 1 (1, 2) = 548" "walks mainKeyboardLayout 2 5 2 (1, 2) = 208"
  "walks mainKeyboardLayout 2 5 0 (1, 3) = 405" "walks mainKeyboardLayout 2 5 1 (1, 3) = 335" "walks mainKeyboardLayout 2 5 2 (1, 3) = 169"
  "walks mainKeyboardLayout 2 5 0 (1, 4) = 483" "walks mainKeyboardLayout 2 5 1 (1, 4) = 433" "walks mainKeyboardLayout 2 5 2 (1, 4) = 270"
  "walks mainKeyboardLayout 2 5 0 (2, 0) = 468" "walks mainKeyboardLayout 2 5 1 (2, 0) = 387" "walks mainKeyboardLayout 2 5 2 (2, 0) = 182"
  "walks mainKeyboardLayout 2 5 0 (2, 1) = 534" "walks mainKeyboardLayout 2 5 1 (2, 1) = 387" "walks mainKeyboardLayout 2 5 2 (2, 1) = 177"
  "walks mainKeyboardLayout 2 5 0 (2, 2) = 482" "walks mainKeyboardLayout 2 5 1 (2, 2) = 452" "walks mainKeyboardLayout 2 5 2 (2, 2) = 324"
  "walks mainKeyboardLayout 2 5 0 (2, 3) = 566" "walks mainKeyboardLayout 2 5 1 (2, 3) = 462" "walks mainKeyboardLayout 2 5 2 (2, 3) = 244"
  "walks mainKeyboardLayout 2 5 0 (2, 4) = 468" "walks mainKeyboardLayout 2 5 1 (2, 4) = 385" "walks mainKeyboardLayout 2 5 2 (2, 4) = 183"
  "walks mainKeyboardLayout 2 5 0 (3, 1) = 484" "walks mainKeyboardLayout 2 5 1 (3, 1) = 438" "walks mainKeyboardLayout 2 5 2 (3, 1) = 276"
  "walks mainKeyboardLayout 2 5 0 (3, 2) = 518" "walks mainKeyboardLayout 2 5 1 (3, 2) = 341" "walks mainKeyboardLayout 2 5 2 (3, 2) = 113"
  "walks mainKeyboardLayout 2 5 0 (3, 3) = 484" "walks mainKeyboardLayout 2 5 1 (3, 3) = 421" "walks mainKeyboardLayout 2 5 2 (3, 3) = 247"
  unfolding walks.simps(2)[of _ _ "4", unfolded Suc_numeral add_num_simps]
  by (simp_all add: main_legalMoves main_vowelValue target_def walks_over main_level_4 numeral_2_eq_2[symmetric] del: One_nat_def)

lemma main_level_6:
  "walks mainKeyboardLayout 2 6 0 (0, 0) = 1328" "walks mainKeyboardLayout 2 6 1 (0, 0) = 935" "walks mainKeyboardLayout 2 6 2 (0, 0) = 385"
  "walks mainKeyboardLayout 2 6 0 (0, 1) = 1285" "walks mainKeyboardLayout 2 6 1 (0, 1) = 1008" "walks mainKeyboardLayout 2 6 2 (0, 1) = 506"
  "walks mainKeyboardLayout 2 6 0 (0, 2) = 2066" "walks mainKeyboardLayout 2 6 1 (0, 2) = 1721" "walks mainKeyboardLayout 2 6 2 (0, 2) = 970"
  "walks mainKeyboardLayout 2 6 0 (0, 3) = 1272" "walks mainKeyboardLayout 2 6 1 (0, 3) = 985" "walks mainKeyboardLayout 2 6 2 (0, 3) = 520"
  "walks mainKeyboardLayout 2 6 0 (0, 4) = 1360" "walks mainKeyboardLayout 2 6 1 (0, 4) = 1010" "walks mainKeyboardLayout 2 6 2 (0, 4) = 452"
  "walks mainKeyboardLayout 2 6 0 (1, 0) = 1514" "walks mainKeyboardLayout 2 6 1 (1, 0) = 1403" "walks mainKeyboardLayout 2 6 2 (1, 0) = 965"
  "walks mainKeyboardLayout 2 6 0 (1, 1) = 1490" "walks mainKeyboardLayout 2 6 1 (1, 1) = 1108" "walks mainKeyboardLayout 2 6 2 (1, 1) = 508"
  "walks mainKeyboardLayout 2 6 0 (1, 2) = 2426" "walks mainKeyboardLayout 2 6 1 (1, 2) = 1745" "walks mainKeyboardLayout 2 6 2 (1, 2) = 705"
  "walks mainKeyboardLayout 2 6 0 (1, 3) = 1464" "walks mainKeyboardLayout 2 6 1 (1, 3) = 1042" "walks mainKeyboardLayout 2 6 2 (1, 3) = 438"
  "walks mainKeyboardLayout 2 6 0 (1, 4) = 1514" "walks mainKeyboardLayout 2 6 1 (1, 4) = 1386" "walks mainKeyboardLayout 2 6 2 (1, 4) = 936"
  "walks mainKeyboardLayout 2 6 0 (2, 0) = 1724" "walks mainKeyboardLayout 2 6 1 (2, 0) = 1203" "walks mainKeyboardLayout 2 6 2 (2, 0) = 469"
  "walks mainKeyboardLayout 2 6 0 (2, 1) = 1661" "walks mainKeyboardLayout 2 6 1 (2, 1) = 1248" "walks mainKeyboardLayout 2 6 2 (2, 1) = 612"
  "walks mainKeyboardLayout 2 6 0 (2, 2) = 1784" "walks mainKeyboardLayout 2 6 1 (2, 2) = 1491" "walks mainKeyboardLayout 2 6 2 (2, 2) = 848"
  "walks mainKeyboardLayout 2 6 0 (2, 3) = 1748" "walks mainKeyboardLayout 2 6 1 (2, 3) = 1472" "walks mainKeyboardLayout 2 6 2 (2, 3) = 837"
  "walks mainKeyboardLayout 2 6 0 (2, 4) = 1718" "walks mainKeyboardLayout 2 6 1 (2, 4) = 1194" "walks mainKeyboardLayout 2 6 2 (2, 4) = 472"
  "walks mainKeyboardLayout 2 6 0 (3, 1) = 1843" "walks mainKeyboardLayout 2 6 1 (3, 1) = 1449" "walks mainKeyboardLayout 2 6 2 (3, 1) = 731"
  "walks mainKeyboardLayout 2 6 0 (3, 2) = 1593" "walks mainKeyboardLayout 2 6 1 (3, 2) = 1089" "walks mainKeyboardLayout 2 6 2 (3, 2) = 378"
  "walks mainKeyboardLayout 2 6 0 (3, 3) = 1811" "walks mainKeyboardLayout 2 6 1 (3, 3) = 1368" "walks mainKeyboardLayout 2 6 2 (3, 3) = 655"
  unfolding walks.simps(2)[of _ _ "5", unfolded Suc_numeral add_num_simps]
  by (simp_all add: main_legalMoves main_vowelValue target_def walks_over main_level_5 numeral_2_eq_2[symmetric] del: One_nat_def)

lemma main_level_7:
  "walks mainKeyboardLayout 2 7 0 (0, 0) = 4087" "walks mainKeyboardLayout 2 7 1 (0, 0) = 2993" "walks mainKeyboardLayout 2 7 2 (0, 0) = 1317"
  "walks mainKeyboardLayout 2 7 0 (0, 1) = 4550" "walks mainKeyboardLayout 2 7 1 (0, 1) = 3132" "walks mainKeyboardLayout 2 7 2 (0, 1) = 1317"
  "walks mainKeyboardLayout 2 7 0 (0, 2) = 6437" "walks mainKeyboardLayout 2 7 1 (0, 2) = 5509" "walks mainKeyboardLayout 2 7 2 (0, 2) = 3350"
  "walks mainKeyboardLayout 2 7 0 (0, 3) = 4468" "walks mainKeyboardLayout 2 7 1 (0, 3) = 3071" "walks mainKeyboardLayout 2 7 2 (0, 3) = 1356"
  "walks mainKeyboardLayout 2 7 0 (0, 4) = 4174" "walks mainKeyboardLayout 2 7 1 (0, 4) = 3217" "walks mainKeyboardLayout 2 7 2 (0, 4) = 1542"
  "walks mainKeyboardLayout 2 7 0 (1, 0) = 5693" "walks mainKeyboardLayout 2 7 1 (1, 0) = 4661" "walks mainKeyboardLayout 2 7 2 (1, 0) = 2549"
  "walks mainKeyboardLayout 2 7 0 (1, 1) = 4613" "walks mainKeyboardLayout 2 7 1 (1, 1) = 3546" "walks mainKeyboardLayout 2 7 2 (1, 1) = 1735"
  "walks mainKeyboardLayout 2 7 0 (1, 2) = 8517" "walks mainKeyboardLayout 2 7 1 (1, 2) = 5329" "walks mainKeyboardLayout 2 7 2 (1, 2) = 1855"
  "walks mainKeyboardLayout 2 7 0 (1, 3) = 4539" "walks mainKeyboardLayout 2 7 1 (1, 3) = 3345" "walks mainKeyboardLayout 2 7 2 (1, 3) = 1496"
  "walks mainKeyboardLayout 2 7 0 (1, 4) = 5661" "walks mainKeyboardLayout 2 7 1 (1, 4) = 4580" "walks mainKeyboardLayout 2 7 2 (1, 4) = 2473"
  "walks mainKeyboardLayout 2 7 0 (2, 0) = 5304" "walks mainKeyboardLayout 2 7 1 (2, 0) = 3842" "walks mainKeyboardLayout 2 7 2 (2, 0) = 1589"
  "walks mainKeyboardLayout 2 7 0 (2, 1) = 5854" "walks mainKeyboardLayout 2 7 1 (2, 1) = 3912" "walks mainKeyboardLayout 2 7 2 (2, 1) = 1625"
  "walks mainKeyboardLayout 2 7 0 (2, 2) = 5585" "walks mainKeyboardLayout 2 7 1 (2, 2) = 4782" "walks mainKeyboardLayout 2 7 2 (2, 2) = 2927"
  "walks mainKeyboardLayout 2 7 0 (2, 3) = 6409" "walks mainKeyboardLayout 2 7 1 (2, 3) = 4730" "walks mainKeyboardLayout 2 7 2 (2, 3) = 2209"
  "walks mainKeyboardLayout 2 7 0 (2, 4) = 5291" "walks mainKeyboardLayout 2 7 1 (2, 4) = 3819" "walks mainKeyboardLayout 2 7 2 (2, 4) = 1603"
  "walks mainKeyboardLayout 2 7 0 (3, 1) = 5688" "walks mainKeyboardLayout 2 7 1 (3, 1) = 4620" "walks mainKeyboardLayout 2 7 2 (3, 1) = 2507"
  "walks mainKeyboardLayout 2 7 0 (3, 2) = 5450" "walks mainKeyboardLayout 2 7 1 (3, 2) = 3221" "walks mainKeyboardLayout 2 7 2 (3, 2) = 977"
  "walks mainKeyboardLayout 2 7 0 (3, 3) = 5601" "walks mainKeyboardLayout 2 7 1 (3, 3) = 4379" "walks mainKeyboardLayout 2 7 2 (3, 3) = 2253"
  unfolding walks.simps(2)[of _ _ "6", unfolded Suc_numeral add_num_simps]
  by (simp_all add: main_legalMoves main_vowelValue target_def walks_over main_level_6 numeral_2_eq_2[symmetric] del: One_nat_def)

lemma main_level_8:
  "walks mainKeyboardLayout 2 8 0 (0, 0) = 14371" "walks mainKeyboardLayout 2 8 1 (0, 0) = 9241" "walks mainKeyboardLayout 2 8 2 (0, 0) = 3480"
  "walks mainKeyboardLayout 2 8 0 (0, 1) = 14234" "walks mainKeyboardLayout 2 8 1 (0, 1) = 10120" "walks mainKeyboardLayout 2 8 2 (0, 1) = 4516"
  "walks mainKeyboardLayout 2 8 0 (0, 2) = 23617" "walks mainKeyboardLayout 2 8 1 (0, 2) = 17883" "walks mainKeyboardLayout 2 8 2 (0, 2) = 8856"
  "walks mainKeyboardLayout 2 8 0 (0, 3) = 14017" "walks mainKeyboardLayout 2 8 1 (0, 3) = 9931" "walks mainKeyboardLayout 2 8 2 (0, 3) = 4662"
  "walks mainKeyboardLayout 2 8 0 (0, 4) = 14926" "walks mainKeyboardLayout 2 8 1 (0, 4) = 10059" "walks mainKeyboardLayout 2 8 2 (0, 4) = 4064"
  "walks mainKeyboardLayout 2 8 0 (1, 0) = 17710" "walks mainKeyboardLayout 2 8 1 (1, 0) = 14911" "walks mainKeyboardLayout 2 8 2 (1, 0) = 8784"
  "walks mainKeyboardLayout 2 8 0 (1, 1) = 16327" "walks mainKeyboardLayout 2 8 1 (1, 1) = 11022" "walks mainKeyboardLayout 2 8 2 (1, 1) = 4542"
  "walks mainKeyboardLayout 2 8 0 (1, 2) = 26622" "walks mainKeyboardLayout 2 8 1 (1, 2) = 17303" "walks mainKeyboardLayout 2 8 2 (1, 2) = 6349"
  "walks mainKeyboardLayout 2 8 0 (1, 3) = 15854" "walks mainKeyboardLayout 2 8 1 (1, 3) = 10265" "walks mainKeyboardLayout 2 8 2 (1, 3) = 3919"
  "walks mainKeyboardLayout 2 8 0 (1, 4) = 17623" "walks mainKeyboardLayout 2 8 1 (1, 4) = 14670" "walks mainKeyboardLayout 2 8 2 (1, 4) = 8530"
  "walks mainKeyboardLayout 2 8 0 (2, 0) = 18517" "walks mainKeyboardLayout 2 8 1 (2, 0) = 11682" "walks mainKeyboardLayout 2 8 2 (2, 0) = 4149"
  "walks mainKeyboardLayout 2 8 0 (2, 1) = 18376" "walks mainKeyboardLayout 2 8 1 (2, 1) = 12701" "walks mainKeyboardLayout 2 8 2 (2, 1) = 5603"
  "walks mainKeyboardLayout 2 8 0 (2, 2) = 20372" "walks mainKeyboardLayout 2 8 1 (2, 2) = 15444" "walks mainKeyboardLayout 2 8 2 (2, 2) = 7695"
  "walks mainKeyboardLayout 2 8 0 (2, 3) = 19955" "walks mainKeyboardLayout 2 8 1 (2, 3) = 15217" "walks mainKeyboardLayout 2 8 2 (2, 3) = 7592"
  "walks mainKeyboardLayout 2 8 0 (2, 4) = 18435" "walks mainKeyboardLayout 2 8 1 (2, 4) = 11621" "walks mainKeyboardLayout 2 8 2 (2, 4) = 4188"
  "walks mainKeyboardLayout 2 8 0 (3, 1) = 20619" "walks mainKeyboardLayout 2 8 1 (3, 1) = 14720" "walks mainKeyboardLayout 2 8 2 (3, 1) = 6613"
  "walks mainKeyboardLayout 2 8 0 (3, 2) = 17081" "walks mainKeyboardLayout 2 8 1 (3, 2) = 10487" "walks mainKeyboardLayout 2 8 2 (3, 2) = 3324"
  "walks mainKeyboardLayout 2 8 0 (3, 3) = 20032" "walks mainKeyboardLayout 2 8 1 (3, 3) = 13821" "walks mainKeyboardLayout 2 8 2 (3, 3) = 5953"
  unfolding walks.simps(2)[of _ _ "7", unfolded Suc_numeral add_num_simps]
  by (simp_all add: main_legalMoves main_vowelValue target_def walks_over main_level_7 numeral_2_eq_2[symmetric] del: One_nat_def)

lemma main_level_9:
  "walks mainKeyboardLayout 2 9 0 (0, 0) = 44998" "walks mainKeyboardLayout 2 9 1 (0, 0) = 30004" "walks mainKeyboardLayout 2 9 2 (0, 0) = 11952"
  "walks mainKeyboardLayout 2 9 0 (0, 1) = 49154" "walks mainKeyboardLayout 2 9 1 (0, 1) = 31045" "walks mainKeyboardLayout 2 9 2 (0, 1) = 11844"
  "walks mainKeyboardLayout 2 9 0 (0, 2) = 73664" "walks mainKeyboardLayout 2 9 1 (0, 2) = 57499" "walks mainKeyboardLayout 2 9 2 (0, 2) = 30509"
  "walks mainKeyboardLayout 2 9 0 (0, 3) = 48320" "walks mainKeyboardLayout 2 9 1 (0, 3) = 30654" "walks mainKeyboardLayout 2 9 2 (0, 3) = 12237"
  "walks mainKeyboardLayout 2 9 0 (0, 4) = 46577" "walks mainKeyboardLayout 2 9 1 (0, 4) = 32520" "walks mainKeyboardLayout 2 9 2 (0, 4) = 13941"
  "walks mainKeyboardLayout 2 9 0 (1, 0) = 64608" "walks mainKeyboardLayout 2 9 1 (1, 0) = 48047" "walks mainKeyboardLayout 2 9 2 (1, 0) = 23164"
  "walks mainKeyboardLayout 2 9 0 (1, 1) = 51053" "walks mainKeyboardLayout 2 9 1 (1, 1) = 35635" "walks mainKeyboardLayout 2 9 2 (1, 1) = 15578"
  "walks mainKeyboardLayout 2 9 0 (1, 2) = 90089" "walks mainKeyboardLayout 2 9 1 (1, 2) = 51955" "walks mainKeyboardLayout 2 9 2 (1, 2) = 16715"
  "walks mainKeyboardLayout 2 9 0 (1, 3) = 49691" "walks mainKeyboardLayout 2 9 1 (1, 3) = 33308" "walks mainKeyboardLayout 2 9 2 (1, 3) = 13443"
  "walks mainKeyboardLayout 2 9 0 (1, 4) = 64021" "walks mainKeyboardLayout 2 9 1 (1, 4) = 47148" "walks mainKeyboardLayout 2 9 2 (1, 4) = 22504"
  "walks mainKeyboardLayout 2 9 0 (2, 0) = 57937" "walks mainKeyboardLayout 2 9 1 (2, 0) = 37910" "walks mainKeyboardLayout 2 9 2 (2, 0) = 14189"
  "walks mainKeyboardLayout 2 9 0 (2, 1) = 63155" "walks mainKeyboardLayout 2 9 1 (2, 1) = 39103" "walks mainKeyboardLayout 2 9 2 (2, 1) = 14809"
  "walks mainKeyboardLayout 2 9 0 (2, 2) = 63584" "walks mainKeyboardLayout 2 9 1 (2, 2) = 49632" "walks mainKeyboardLayout 2 9 2 (2, 2) = 26492"
  "walks mainKeyboardLayout 2 9 0 (2, 3) = 70622" "walks mainKeyboardLayout 2 9 1 (2, 3) = 47689" "walks mainKeyboardLayout 2 9 2 (2, 3) = 20011"
  "walks mainKeyboardLayout 2 9 0 (2, 4) = 57720" "walks mainKeyboardLayout 2 9 1 (2, 4) = 37721" "walks mainKeyboardLayout 2 9 2 (2, 4) = 14335"
  "walks mainKeyboardLayout 2 9 0 (3, 1) = 64287" "walks mainKeyboardLayout 2 9 1 (3, 1) = 47431" "walks mainKeyboardLayout 2 9 2 (3, 1) = 22725"
  "walks mainKeyboardLayout 2 9 0 (3, 2) = 56730" "walks mainKeyboardLayout 2 9 1 (3, 2) = 30811" "walks mainKeyboardLayout 2 9 2 (3, 2) = 8691"
  "walks mainKeyboardLayout 2 9 0 (3, 3) = 62621" "walks mainKeyboardLayout 2 9 1 (3, 3) = 44674" "walks mainKeyboardLayout 2 9 2 (3, 3) = 20482"
  unfolding walks.simps(2)[of _ _ "8", unfolded Suc_numeral add_num_simps]
  by (simp_all add: main_legalMoves main_vowelValue target_def walks_over main_level_8 numeral_2_eq_2[symmetric] del: One_nat_def)

lemma main_totalWalks: "totalWalks mainKeyboardLayout 10 2 = 1013398"
  unfolding totalWalks_def main_startCells
  by (simp add: main_vowelValue main_level_9 del: One_nat_def)

lemma mainKeyboardLayout_distinct: "distinctLabels mainKeyboardLayout"
  by code_simp

lemma totalSequenceCout_fold:
  "fold (\<lambda>entry total. total + of_nat (length (snd entry))) sequences (acc :: 32 word)
     = acc + of_nat (numSequences sequences)"
  by (induction sequences arbitrary: acc) (simp_all add: numSequences_def)

lemma totalSequenceCout_numSequences:
  "totalSequenceCout sequences = of_nat (numSequences sequences)"
  by (simp add: totalSequenceCout_def totalSequenceCout_fold)

lemma show_int_main: "show_int 1013398 = ''1013398''"
  by (simp add: show_int_def show_nat.simps[of 1013398] show_nat.simps[of 101339]
      show_nat.simps[of 10133] show_nat.simps[of 1013] show_nat.simps[of 101]
      show_nat.simps[of 10] show_nat.simps[of 1] digit_def)

lemma sint_main: "sint (of_nat 1013398 :: 32 word) = 1013398"
  by simp

lemma main_ctor: "KeyboardLayout_ctor (CHR 0x00) mainLayout = Inr mainKeyboardLayout"
  by (simp add: KeyboardLayout_ctor_def mainLayout_def mainKeyboardLayout_def)

text \<open>
  Claim C1. \<^verbatim>\<open>main\<close>, that is the keypad of four rows and five columns with the invalid key
  at the two ends of the last row, the knight, a sequence length of 10 and a vowel limit
  of 2, counts 1013398 sequences, writes the line \<^verbatim>\<open>Total number of sequences: 1013398\<close> to
  standard output and returns the status 0.
\<close>

theorem main_prints_1013398:
  "main = Some (''Total number of sequences: 1013398'' @ [CHR 0x0A], EXIT_SUCCESS)
   \<and> EXIT_SUCCESS = 0
   \<and> aggregateCount 10 2 mainKeyboardLayout Knight = Some (Inr 1013398)"
proof -
  have len: "(1::nat) \<le> 10" by simp
  from Keyboard_ctor_exact[OF mainKeyboardLayout_rectangular mainKeyboardLayout_distinct len, of 2]
  obtain K where K: "Keyboard_ctor 10 2 mainKeyboardLayout Knight = Inr K" "exactTable K"
    "sequenceLength K = 10" "maxVowelCount K = 2" "keyboardLayout K = mainKeyboardLayout"
    by blast
  from generate_exact[OF K(2)] K(3,4,5) obtain sequences
    where g: "GenerateSequences K = Some (Inr sequences)"
      and n: "numSequences sequences = 1013398"
    by (auto simp: main_totalWalks)
  have d: "displayTotalSequences K = Some (Inr (''Total number of sequences: 1013398'' @ [CHR 0x0A]))"
    by (simp add: displayTotalSequences_def g totalSequenceCout_numSequences n sint_main show_int_main)
  have "main = Some (''Total number of sequences: 1013398'' @ [CHR 0x0A], EXIT_SUCCESS)"
    by (simp add: main_def runMain_def main_ctor K(1) d)
  moreover have "aggregateCount 10 2 mainKeyboardLayout Knight = Some (Inr 1013398)"
    using aggregateCount_distinct[OF mainKeyboardLayout_rectangular mainKeyboardLayout_distinct len, of 2]
    by (simp add: main_totalWalks)
  ultimately show ?thesis by (simp add: EXIT_SUCCESS_def)
qed

end
